theory Spec2Isabelle
  imports Main "HOL-Library.Word" "HOL-Library.Log_Nat"
begin

unbundle bit_operations_syntax

section \<open>The number scanner of simdjson-go (parse_number.go)\<close>

text \<open>
  The Go function \<^verbatim>\<open>parseNumber(buf []byte) (id, val uint64)\<close> scans the bytes of a
  candidate JSON number, validates them with a 256-entry classification table and hands
  the accepted prefix to \<^verbatim>\<open>strconv.ParseInt\<close>, \<^verbatim>\<open>strconv.ParseUint\<close> and
  \<^verbatim>\<open>strconv.ParseFloat\<close>. Bytes are modelled as \<^typ>\<open>char\<close> (8 bits), a byte
  slice as \<^typ>\<open>string\<close>, \<^verbatim>\<open>uint8\<close> and \<^verbatim>\<open>uint64\<close> as words.
\<close>

type_synonym u8 = "8 word"
type_synonym u64 = "64 word"

subsection \<open>Classification flags and table\<close>

text \<open>The \<^verbatim>\<open>const ( ... = 1 << iota ... )\<close> block.\<close>

definition isPartOfNumberFlag :: u8 where "isPartOfNumberFlag = 1"
definition isFloatOnlyFlag :: u8 where "isFloatOnlyFlag = 2"
definition isMinusFlag :: u8 where "isMinusFlag = 4"
definition isEOVFlag :: u8 where "isEOVFlag = 8"
definition isDigitFlag :: u8 where "isDigitFlag = 16"
definition isMustHaveDigitNext :: u8 where "isMustHaveDigitNext = 32"

text \<open>
  The table \<^verbatim>\<open>isNumberRune = [256]uint8{...}\<close>: the listed indices carry the listed
  flags, every other index holds 0. Tab, carriage return and line feed are the bytes
  9, 13 and 10.
\<close>

definition isNumberRune :: "char \<Rightarrow> u8" where
  "isNumberRune v =
    (if v = CHR ''0'' then isPartOfNumberFlag OR isDigitFlag
     else if v = CHR ''1'' then isPartOfNumberFlag OR isDigitFlag
     else if v = CHR ''2'' then isPartOfNumberFlag OR isDigitFlag
     else if v = CHR ''3'' then isPartOfNumberFlag OR isDigitFlag
     else if v = CHR ''4'' then isPartOfNumberFlag OR isDigitFlag
     else if v = CHR ''5'' then isPartOfNumberFlag OR isDigitFlag
     else if v = CHR ''6'' then isPartOfNumberFlag OR isDigitFlag
     else if v = CHR ''7'' then isPartOfNumberFlag OR isDigitFlag
     else if v = CHR ''8'' then isPartOfNumberFlag OR isDigitFlag
     else if v = CHR ''9'' then isPartOfNumberFlag OR isDigitFlag
     else if v = CHR ''.'' then isPartOfNumberFlag OR isFloatOnlyFlag OR isMustHaveDigitNext
     else if v = CHR ''+'' then isPartOfNumberFlag
     else if v = CHR ''-'' then isPartOfNumberFlag OR isMinusFlag OR isMustHaveDigitNext
     else if v = CHR ''e'' then isPartOfNumberFlag OR isFloatOnlyFlag
     else if v = CHR ''E'' then isPartOfNumberFlag OR isFloatOnlyFlag
     else if v = CHR '','' then isEOVFlag
     else if v = CHR ''}'' then isEOVFlag
     else if v = CHR '']'' then isEOVFlag
     else if v = CHR '' '' then isEOVFlag
     else if v = CHR 0x09 then isEOVFlag
     else if v = CHR 0x0D then isEOVFlag
     else if v = CHR 0x0A then isEOVFlag
     else if v = CHR '':'' then isEOVFlag
     else 0)"

subsection \<open>The scanning loop\<close>

text \<open>
  The loop \<^verbatim>\<open>for i, v := range buf\<close> with its local variables \<^verbatim>\<open>pos\<close> and
  \<^verbatim>\<open>found\<close>. \<open>Aborted\<close> is a \<^verbatim>\<open>return 0, 0\<close> from inside the loop; \<open>Scanned pos found\<close>
  is the state in which the loop is left, by \<^verbatim>\<open>break\<close> or at the end of the buffer.
\<close>

datatype scan_result = Aborted | Scanned nat u8

function scan :: "string \<Rightarrow> nat \<Rightarrow> nat \<Rightarrow> u8 \<Rightarrow> scan_result" where
  "scan buf i pos found =
    (if i < length buf then
       (let v = buf ! i; t = isNumberRune v in
        if t = 0 then Aborted
        else if t = isEOVFlag then Scanned pos found
        else if t AND isMustHaveDigitNext > 0 \<and>
                (length buf < i + 2 \<or> isNumberRune (buf ! (i + 1)) AND isDigitFlag = 0)
          then Aborted
        else scan buf (i + 1) (i + 1) (found OR t))
     else Scanned pos found)"
  by pat_completeness auto
termination
  by (relation "measure (\<lambda>(buf, i, pos, found). length buf - i)") auto

declare scan.simps [simp del]

subsection \<open>The conversions of Go's strconv package\<close>

text \<open>
  \<^verbatim>\<open>strconv\<close> belongs to Go's standard library, not to the repository. The three
  functions are modelled after their documented behaviour for the arguments that
  \<^verbatim>\<open>parseNumber\<close> passes (base 10, bit size 64). Each returns its value together with
  an optional error, as the Go functions do; \<^verbatim>\<open>*NumError\<close> is reduced to its
  \<^verbatim>\<open>Err\<close> field, which is all that \<^verbatim>\<open>errors.Is(err, strconv.ErrRange)\<close> inspects.
\<close>

datatype num_error = ErrSyntax | ErrRange

definition is_digit :: "char \<Rightarrow> bool" where
  "is_digit c \<longleftrightarrow> 48 \<le> (of_char c :: nat) \<and> (of_char c :: nat) \<le> 57"

definition digit_val :: "char \<Rightarrow> nat" where
  "digit_val c = of_char c - 48"

definition maxUint64 :: nat where
  "maxUint64 = 2 ^ 64 - 1"

text \<open>
  \<^verbatim>\<open>ParseUint(s, 10, 64)\<close>: every byte must be a decimal digit (no sign, and with an
  explicit base no underscore); \<^verbatim>\<open>cutoff = maxUint64/10 + 1\<close>; the accumulator is a
  \<^verbatim>\<open>uint64\<close>, so the addition wraps and the wrap is what the test \<^verbatim>\<open>n1 < n\<close> detects.
  A range error is returned as soon as it occurs, before later bytes are looked at.
\<close>

fun ParseUint_loop :: "string \<Rightarrow> nat \<Rightarrow> nat \<times> num_error option" where
  "ParseUint_loop [] n = (n, None)"
| "ParseUint_loop (c # cs) n =
    (if \<not> is_digit c then (0, Some ErrSyntax)
     else if n \<ge> maxUint64 div 10 + 1 then (maxUint64, Some ErrRange)
     else
       (let n10 = n * 10; n1 = (n10 + digit_val c) mod 2 ^ 64 in
        if n1 < n10 \<or> n1 > maxUint64 then (maxUint64, Some ErrRange)
        else ParseUint_loop cs n1))"

definition ParseUint :: "string \<Rightarrow> nat \<times> num_error option" where
  "ParseUint s = (if s = [] then (0, Some ErrSyntax) else ParseUint_loop s 0)"

text \<open>
  \<^verbatim>\<open>ParseInt(s, 10, 64)\<close>: one leading \<^verbatim>\<open>+\<close> or \<^verbatim>\<open>-\<close> is picked off, the rest goes
  through \<^verbatim>\<open>ParseUint\<close>, and the magnitude is checked against \<^verbatim>\<open>cutoff = 1 << 63\<close>.
  The \<^verbatim>\<open>int64\<close> result is given as the integer it denotes.
\<close>

definition ParseInt :: "string \<Rightarrow> int \<times> num_error option" where
  "ParseInt s =
    (if s = [] then (0, Some ErrSyntax)
     else
       (let neg = (hd s = CHR ''-'');
            s1 = (if hd s = CHR ''+'' \<or> hd s = CHR ''-'' then tl s else s)
        in case ParseUint s1 of
             (un, Some ErrSyntax) \<Rightarrow> (0, Some ErrSyntax)
           | (un, _) \<Rightarrow>
               if \<not> neg \<and> un \<ge> 2 ^ 63 then (2 ^ 63 - 1, Some ErrRange)
               else if neg \<and> un > 2 ^ 63 then (- (2 ^ 63), Some ErrRange)
               else (if neg then - int un else int un, None)))"

text \<open>
  \<^verbatim>\<open>ParseFloat(s, 64)\<close>, for strings over the bytes that the scanner lets through
  (digits, \<^verbatim>\<open>+ - . e E\<close>): the special values, hexadecimal literals and underscores
  that \<^verbatim>\<open>ParseFloat\<close> also accepts contain other bytes and are never passed on by
  \<^verbatim>\<open>parseNumber\<close>; the model answers them with a syntax error.

  The accepted syntax is the one of \<^verbatim>\<open>readFloat\<close>: an optional sign, digits with at
  most one point and at least one digit, an optional exponent \<^verbatim>\<open>e\<close> or \<^verbatim>\<open>E\<close> with an
  optional sign and at least one digit, and nothing after it. The exponent is
  accumulated only while it is below 10000, as \<^verbatim>\<open>readFloat\<close> does.
  The significand is kept as the natural number its digits spell, together with
  the number of digits after the point.
\<close>

fun mantissa_loop :: "string \<Rightarrow> bool \<Rightarrow> bool \<Rightarrow> nat \<Rightarrow> nat \<Rightarrow> bool \<times> nat \<times> nat \<times> string" where
  "mantissa_loop [] sawdot sawdigits mant k = (sawdigits, mant, k, [])"
| "mantissa_loop (c # cs) sawdot sawdigits mant k =
    (if c = CHR ''.'' then
       (if sawdot then (sawdigits, mant, k, c # cs)
        else mantissa_loop cs True sawdigits mant k)
     else if is_digit c then
       mantissa_loop cs sawdot True (mant * 10 + digit_val c) (if sawdot then k + 1 else k)
     else (sawdigits, mant, k, c # cs))"

fun exponent_loop :: "string \<Rightarrow> nat \<Rightarrow> nat \<times> string" where
  "exponent_loop [] e = (e, [])"
| "exponent_loop (c # cs) e =
    (if is_digit c then exponent_loop cs (if e < 10000 then e * 10 + digit_val c else e)
     else (e, c # cs))"

text \<open>
  \<open>readFloat s\<close> is \<open>None\<close> where \<^verbatim>\<open>readFloat\<close> reports \<^verbatim>\<open>ok = false\<close>; otherwise it
  gives the sign, the significand, the decimal exponent and the unread rest.
  \<open>read_exponent\<close> is its last part, the optional exponent.
\<close>

definition read_exponent ::
  "bool \<Rightarrow> nat \<Rightarrow> nat \<Rightarrow> string \<Rightarrow> (bool \<times> nat \<times> int \<times> string) option" where
  "read_exponent neg mant k s2 =
    (if s2 \<noteq> [] \<and> (hd s2 = CHR ''e'' \<or> hd s2 = CHR ''E'') then
       (let s3 = tl s2 in
        if s3 = [] then None
        else
          (let esign = (if hd s3 = CHR ''-'' then - 1 else (1 :: int));
               s4 = (if hd s3 = CHR ''+'' \<or> hd s3 = CHR ''-'' then tl s3 else s3)
           in if s4 = [] \<or> \<not> is_digit (hd s4) then None
              else (case exponent_loop s4 0 of
                      (e, s5) \<Rightarrow> Some (neg, mant, esign * int e - int k, s5))))
     else Some (neg, mant, - int k, s2))"

definition readFloat :: "string \<Rightarrow> (bool \<times> nat \<times> int \<times> string) option" where
  "readFloat s =
    (if s = [] then None
     else
       (let neg = (hd s = CHR ''-'');
            s1 = (if hd s = CHR ''+'' \<or> hd s = CHR ''-'' then tl s else s)
        in case mantissa_loop s1 False False 0 0 of
          (sawdigits, mant, k, s2) \<Rightarrow>
            if \<not> sawdigits then None else read_exponent neg mant k s2))"

text \<open>
  The conversion to binary64 follows the contract of \<^verbatim>\<open>ParseFloat\<close>: the nearest
  floating-point number, ties to even; beyond the largest finite number by half a unit
  in the last place or more, an infinity with \<^verbatim>\<open>ErrRange\<close>. Too small a value rounds
  to zero without an error.

  \<open>rne n d\<close> rounds the fraction \<open>n / d\<close> to the nearest natural number, ties to even.
  \<open>ilog2_ratio p q\<close> is the integer \<open>E\<close> with \<open>2 ^ E \<le> p / q < 2 ^ (E + 1)\<close>.
  \<open>f64_round p q\<close> is the bit pattern (without sign) of the double nearest to \<open>p / q\<close>;
  a result from \<open>2047 * 2 ^ 52\<close> on stands for overflow.
\<close>

definition rne :: "nat \<Rightarrow> nat \<Rightarrow> nat" where
  "rne n d =
    (let fl = n div d; r = n mod d in
     if 2 * r < d then fl
     else if d < 2 * r then fl + 1
     else if even fl then fl else fl + 1)"

definition ilog2_ratio :: "nat \<Rightarrow> nat \<Rightarrow> int" where
  "ilog2_ratio p q =
    (if q \<le> p then int (floorlog 2 (p div q)) - 1
     else - int (floorlog 2 ((q - 1) div p)))"

definition f64_round :: "nat \<Rightarrow> nat \<Rightarrow> nat" where
  "f64_round p q =
    (let E = max (ilog2_ratio p q) (- 1022);
         m = (if E \<le> 52 then rne (p * 2 ^ nat (52 - E)) q
              else rne p (q * 2 ^ nat (E - 52)))
     in nat (E + 1022) * 2 ^ 52 + m)"

definition ParseFloat :: "string \<Rightarrow> u64 \<times> num_error option" where
  "ParseFloat s =
    (case readFloat s of
       None \<Rightarrow> (0, Some ErrSyntax)
     | Some (neg, mant, ex, rest) \<Rightarrow>
         if rest \<noteq> [] then (0, Some ErrSyntax)
         else
           (let sign = (if neg then push_bit 63 1 else (0 :: u64)) in
            if mant = 0 then (sign, None)
            else
              (let b = (if 0 \<le> ex then f64_round (mant * 10 ^ nat ex) 1
                        else f64_round mant (10 ^ nat (- ex)))
               in if b \<ge> 2047 * 2 ^ 52 then (sign OR push_bit 52 2047, Some ErrRange)
                  else (sign OR word_of_nat b, None))))"

subsection \<open>The number that a double denotes\<close>

text \<open>
  The value word of a Float result is \<^verbatim>\<open>math.Float64bits(f64)\<close> (line 132). Read back,
  bit 63 is the sign, the next 11 bits the biased exponent \<open>e\<close> and the last 52 the
  fraction \<open>m\<close>. \<open>f64_value\<close> is the number that the 63 bits below the sign denote:
  \<open>m * 2 ^ - 1074\<close> for \<open>e = 0\<close> and \<open>(2 ^ 52 + m) * 2 ^ (e - 1075)\<close> otherwise.
  A word is finite if its exponent field is below 2047; \<open>f64_decode\<close> is the number
  that a finite word denotes.
\<close>

definition f64_value :: "nat \<Rightarrow> rat" where
  "f64_value b =
    (let e = b div 2 ^ 52; m = b mod 2 ^ 52 in
     if e = 0 then of_nat m * 2 powi (- 1074)
     else of_nat (2 ^ 52 + m) * 2 powi (int e - 1075))"

definition f64_finite :: "u64 \<Rightarrow> bool" where
  "f64_finite w \<longleftrightarrow> unat w mod 2 ^ 63 < 2047 * 2 ^ 52"

definition f64_decode :: "u64 \<Rightarrow> rat" where
  "f64_decode w =
    (if unat w < 2 ^ 63 then f64_value (unat w) else - f64_value (unat w - 2 ^ 63))"

subsection \<open>Tags of the tape format\<close>

text \<open>
  \<^verbatim>\<open>TagInteger\<close>, \<^verbatim>\<open>TagUint\<close>, \<^verbatim>\<open>TagFloat\<close> (of type \<^verbatim>\<open>Tag\<close>, a \<^verbatim>\<open>uint8\<close>),
  \<^verbatim>\<open>JSONTAGOFFSET\<close> and \<^verbatim>\<open>FloatOverflowedInteger\<close> are declared in other files of
  the package. They are parameters of the model.
\<close>

record tape_consts =
  TagInteger :: u8
  TagUint :: u8
  TagFloat :: u8
  JSONTAGOFFSET :: nat
  FloatOverflowedInteger :: u64

definition integerTag :: "tape_consts \<Rightarrow> u64" where
  "integerTag K = push_bit (JSONTAGOFFSET K) (ucast (TagInteger K))"

definition uintTag :: "tape_consts \<Rightarrow> u64" where
  "uintTag K = push_bit (JSONTAGOFFSET K) (ucast (TagUint K))"

definition floatTag :: "tape_consts \<Rightarrow> u64" where
  "floatTag K = push_bit (JSONTAGOFFSET K) (ucast (TagFloat K))"

subsection \<open>parseNumber\<close>

definition maxIntLen :: nat where
  "maxIntLen = 20"

text \<open>
  The integer attempt, lines 93 to 124. \<open>Inl r\<close> is a \<^verbatim>\<open>return\<close> of the pair \<open>r\<close>;
  \<open>Inr tag\<close> falls through to the float attempt with the value of \<^verbatim>\<open>floatTag\<close>.
  The conversions are arguments, so that a statement can say that one is not called.
\<close>

definition integer_stage ::
  "(string \<Rightarrow> int \<times> num_error option) \<Rightarrow> (string \<Rightarrow> nat \<times> num_error option) \<Rightarrow>
   tape_consts \<Rightarrow> string \<Rightarrow> nat \<Rightarrow> u8 \<Rightarrow> (u64 \<times> u64) + u64" where
  "integer_stage pInt pUint K buf pos found =
    (if found AND isFloatOnlyFlag = 0 \<and> pos \<le> maxIntLen then
       (if (if found AND isMinusFlag = 0 then pos > 1 \<and> buf ! 0 = CHR ''0''
            else pos > 2 \<and> buf ! 1 = CHR ''0'')
        then Inl (0, 0)
        else
          (case pInt (take pos buf) of
             (i64, None) \<Rightarrow> Inl (integerTag K, word_of_int i64)
           | (i64, Some err) \<Rightarrow>
               (let tag1 = (if err = ErrRange then floatTag K OR FloatOverflowedInteger K
                            else floatTag K)
                in if found AND isMinusFlag = 0 then
                     (case pUint (take pos buf) of
                        (u64, None) \<Rightarrow> Inl (uintTag K, word_of_nat u64)
                      | (u64, Some err2) \<Rightarrow>
                          Inr (if err2 = ErrRange then tag1 OR FloatOverflowedInteger K
                               else tag1))
                   else Inr tag1)))
     else if found AND isFloatOnlyFlag = 0 then Inr (floatTag K OR FloatOverflowedInteger K)
     else Inr (floatTag K))"

text \<open>The float attempt, lines 126 to 134.\<close>

definition float_stage ::
  "(string \<Rightarrow> u64 \<times> num_error option) \<Rightarrow> string \<Rightarrow> nat \<Rightarrow> u64 \<Rightarrow> u64 \<times> u64" where
  "float_stage pFloat buf pos tag =
    (if pos > 1 \<and> buf ! 0 = CHR ''0'' \<and> isNumberRune (buf ! 1) AND isFloatOnlyFlag = 0
     then (0, 0)
     else (case pFloat (take pos buf) of
             (f64, None) \<Rightarrow> (tag, f64)
           | (f64, Some err) \<Rightarrow> (0, 0)))"

definition parseNumber_with ::
  "(string \<Rightarrow> int \<times> num_error option) \<Rightarrow> (string \<Rightarrow> nat \<times> num_error option) \<Rightarrow>
   (string \<Rightarrow> u64 \<times> num_error option) \<Rightarrow> tape_consts \<Rightarrow> string \<Rightarrow> u64 \<times> u64" where
  "parseNumber_with pInt pUint pFloat K buf =
    (case scan buf 0 0 0 of
       Aborted \<Rightarrow> (0, 0)
     | Scanned pos found \<Rightarrow>
         if pos = 0 then (0, 0)
         else (case integer_stage pInt pUint K buf pos found of
                 Inl r \<Rightarrow> r
               | Inr tag \<Rightarrow> float_stage pFloat buf pos tag))"

definition parseNumber :: "tape_consts \<Rightarrow> string \<Rightarrow> u64 \<times> u64" where
  "parseNumber K buf = parseNumber_with ParseInt ParseUint ParseFloat K buf"


text \<open>
  An instance of the parameters, for statements about concrete inputs: the tags
  \<^verbatim>\<open>'l'\<close>, \<^verbatim>\<open>'u'\<close> and \<^verbatim>\<open>'d'\<close>, shifted by 56 bits, and the flag \<^verbatim>\<open>1 << 0\<close>.
\<close>

definition simdjson_consts :: tape_consts where
  "simdjson_consts =
    \<lparr>TagInteger = 108, TagUint = 117, TagFloat = 100, JSONTAGOFFSET = 56,
     FloatOverflowedInteger = 1\<rparr>"

subsection \<open>The JSON number grammar and the value of a digit string\<close>

text \<open>
  Modelled from the spec: the standard grammar of a JSON number, which the spec refers
  to and the source does not contain:
  \<^verbatim>\<open>number = [ "-" ] int [ frac ] [ exp ]\<close>, \<^verbatim>\<open>int = "0" / digit1-9 *DIGIT\<close>,
  \<^verbatim>\<open>frac = "." 1*DIGIT\<close>, \<^verbatim>\<open>exp = ("e" / "E") [ "-" / "+" ] 1*DIGIT\<close>.
\<close>

definition json_int :: "string \<Rightarrow> bool" where
  "json_int ip \<longleftrightarrow> ip = ''0'' \<or> (ip \<noteq> [] \<and> hd ip \<noteq> CHR ''0'' \<and> list_all is_digit ip)"

definition json_frac :: "string \<Rightarrow> bool" where
  "json_frac fp \<longleftrightarrow> fp = [] \<or> (hd fp = CHR ''.'' \<and> tl fp \<noteq> [] \<and> list_all is_digit (tl fp))"

definition json_exp :: "string \<Rightarrow> bool" where
  "json_exp ep \<longleftrightarrow>
     ep = [] \<or>
     ((hd ep = CHR ''e'' \<or> hd ep = CHR ''E'') \<and>
      (let r = tl ep;
           ds = (if r \<noteq> [] \<and> (hd r = CHR ''+'' \<or> hd r = CHR ''-'') then tl r else r)
       in ds \<noteq> [] \<and> list_all is_digit ds))"

definition json_number :: "string \<Rightarrow> bool" where
  "json_number tok \<longleftrightarrow>
     (let r1 = (if tok \<noteq> [] \<and> hd tok = CHR ''-'' then tl tok else tok);
          ip = takeWhile is_digit r1;
          r2 = dropWhile is_digit r1;
          fp = (if r2 \<noteq> [] \<and> hd r2 = CHR ''.'' then CHR ''.'' # takeWhile is_digit (tl r2)
                else []);
          ep = drop (length fp) r2
      in json_int ip \<and> json_frac fp \<and> json_exp ep)"

text \<open>The natural number that a string of decimal digits spells.\<close>

definition decimal_value :: "string \<Rightarrow> nat" where
  "decimal_value ds = foldl (\<lambda>n c. n * 10 + digit_val c) 0 ds"

subsection \<open>Auxiliary notions for the scan\<close>

text \<open>
  A byte that the loop accepts into the token carries \<^verbatim>\<open>isPartOfNumberFlag\<close>.
  \<open>follow_ok tok\<close>: every \<^verbatim>\<open>.\<close> and \<^verbatim>\<open>-\<close> of \<open>tok\<close> is followed by a digit.
  \<open>flags_from found tok\<close> is \<^verbatim>\<open>found\<close> after the bytes of \<open>tok\<close> were or-ed into it.
  \<open>bad_at buf i\<close>: at index \<open>i\<close> the loop returns \<^verbatim>\<open>0, 0\<close>.
\<close>

definition number_byte :: "char \<Rightarrow> bool" where
  "number_byte c \<longleftrightarrow> isNumberRune c AND isPartOfNumberFlag \<noteq> 0"

fun follow_ok :: "string \<Rightarrow> bool" where
  "follow_ok [] = True"
| "follow_ok (c # cs) =
    ((if c = CHR ''.'' \<or> c = CHR ''-'' then cs \<noteq> [] \<and> is_digit (hd cs) else True) \<and>
     follow_ok cs)"

definition flags_from :: "u8 \<Rightarrow> string \<Rightarrow> u8" where
  "flags_from found tok = foldl (\<lambda>f c. f OR isNumberRune c) found tok"

definition bad_at :: "string \<Rightarrow> nat \<Rightarrow> bool" where
  "bad_at buf i \<longleftrightarrow>
     isNumberRune (buf ! i) = 0 \<or>
     (isNumberRune (buf ! i) AND isMustHaveDigitNext > 0 \<and>
       (length buf < i + 2 \<or> isNumberRune (buf ! (i + 1)) AND isDigitFlag = 0))"

text \<open>
  What \<open>parseNumber\<close> does with a token once the loop has accepted it: the integer
  attempt and the float attempt on \<^verbatim>\<open>buf[:pos]\<close>.
\<close>

definition resolve :: "tape_consts \<Rightarrow> string \<Rightarrow> u64 \<times> u64" where
  "resolve K tok =
    (case integer_stage ParseInt ParseUint K tok (length tok) (flags_from 0 tok) of
       Inl r \<Rightarrow> r
     | Inr tag \<Rightarrow> float_stage ParseFloat tok (length tok) tag)"

text \<open>
  The check of line 126: the token has more than one byte, starts with \<^verbatim>\<open>0\<close>, and its
  second byte does not carry \<^verbatim>\<open>isFloatOnlyFlag\<close>.
\<close>

definition leading_zero :: "string \<Rightarrow> bool" where
  "leading_zero tok \<longleftrightarrow>
     1 < length tok \<and> tok ! 0 = CHR ''0'' \<and> isNumberRune (tok ! 1) AND isFloatOnlyFlag = 0"




text \<open>
  Modelled from the spec: the mathematical value of a JSON number. \<open>json_exponent\<close> is
  the integer after \<^verbatim>\<open>e\<close> or \<^verbatim>\<open>E\<close>, and 0 where there is none. The value is the
  sign times the digits of the integer and fraction parts times the power of ten that
  the exponent and the length of the fraction give.
\<close>

definition json_exponent :: "string \<Rightarrow> int" where
  "json_exponent tok =
    (let r3 = dropWhile (\<lambda>c. c \<noteq> CHR ''e'' \<and> c \<noteq> CHR ''E'') tok in
     if r3 = [] then 0
     else (let r4 = tl r3 in
           if r4 \<noteq> [] \<and> hd r4 = CHR ''-'' then - int (decimal_value (tl r4))
           else if r4 \<noteq> [] \<and> hd r4 = CHR ''+'' then int (decimal_value (tl r4))
           else int (decimal_value r4)))"

definition json_value :: "string \<Rightarrow> rat" where
  "json_value tok =
    (let neg = (tok \<noteq> [] \<and> hd tok = CHR ''-'');
         r1 = (if neg then tl tok else tok);
         ip = takeWhile is_digit r1;
         r2 = dropWhile is_digit r1;
         fd = (if r2 \<noteq> [] \<and> hd r2 = CHR ''.'' then takeWhile is_digit (tl r2) else [])
     in (if neg then - 1 else 1) * of_nat (decimal_value (ip @ fd)) *
        10 powi (json_exponent tok - int (length fd)))"

section \<open>Properties\<close>

subsection \<open>The classification table\<close>

lemmas flag_defs =
  isPartOfNumberFlag_def isFloatOnlyFlag_def isMinusFlag_def isEOVFlag_def
  isDigitFlag_def isMustHaveDigitNext_def

text \<open>The definitions that the evaluation of \<open>parseNumber\<close> on a given buffer unfolds.\<close>

lemmas eval_defs =
  parseNumber_def parseNumber_with_def scan.simps isNumberRune_def flag_defs
  integer_stage_def float_stage_def maxIntLen_def ParseInt_def ParseUint_def ParseFloat_def
  readFloat_def read_exponent_def is_digit_def digit_val_def maxUint64_def

lemma is_digit_iff: "is_digit c \<longleftrightarrow> c \<in> set ''0123456789''"
proof
  assume "is_digit c"
  then have "(of_char c :: nat) \<in> {48, 49, 50, 51, 52, 53, 54, 55, 56, 57}"
    unfolding is_digit_def by (simp; arith)
  then consider "(of_char c :: nat) = of_char CHR ''0''" | "(of_char c :: nat) = of_char CHR ''1''"
    | "(of_char c :: nat) = of_char CHR ''2''" | "(of_char c :: nat) = of_char CHR ''3''"
    | "(of_char c :: nat) = of_char CHR ''4''" | "(of_char c :: nat) = of_char CHR ''5''"
    | "(of_char c :: nat) = of_char CHR ''6''" | "(of_char c :: nat) = of_char CHR ''7''"
    | "(of_char c :: nat) = of_char CHR ''8''" | "(of_char c :: nat) = of_char CHR ''9''"
    by auto
  then show "c \<in> set ''0123456789''"
    by cases (simp_all only: of_char_eq_iff list.set insert_iff simp_thms)
next
  assume "c \<in> set ''0123456789''"
  then show "is_digit c"
    by (auto simp: is_digit_def)
qed


lemma digit_flag_iff: "isNumberRune c AND isDigitFlag = 0 \<longleftrightarrow> \<not> is_digit c"
  by (simp add: is_digit_iff isNumberRune_def flag_defs)

lemma floatonly_flag_iff:
  "isNumberRune c AND isFloatOnlyFlag = 0 \<longleftrightarrow>
     c \<noteq> CHR ''.'' \<and> c \<noteq> CHR ''e'' \<and> c \<noteq> CHR ''E''"
  by (simp add: isNumberRune_def flag_defs)

lemma minus_flag_iff: "isNumberRune c AND isMinusFlag = 0 \<longleftrightarrow> c \<noteq> CHR ''-''"
  by (simp add: isNumberRune_def flag_defs)

lemma must_digit_flag_iff:
  "isNumberRune c AND isMustHaveDigitNext > 0 \<longleftrightarrow> c = CHR ''.'' \<or> c = CHR ''-''"
  by (simp add: isNumberRune_def flag_defs)

lemma part_flag_iff:
  "isNumberRune c AND isPartOfNumberFlag = 0 \<longleftrightarrow>
     isNumberRune c = 0 \<or> isNumberRune c = isEOVFlag"
  by (simp add: isNumberRune_def flag_defs)

lemma number_byte_iff:
  "number_byte c \<longleftrightarrow>
     is_digit c \<or> c = CHR ''+'' \<or> c = CHR ''-'' \<or> c = CHR ''.'' \<or> c = CHR ''e'' \<or> c = CHR ''E''"
  by (simp add: number_byte_def is_digit_iff isNumberRune_def flag_defs)

lemma digit_val_le: "is_digit c \<Longrightarrow> digit_val c \<le> 9"
  by (auto simp: is_digit_def digit_val_def)

lemma digit_val_zero: "is_digit c \<Longrightarrow> digit_val c = 0 \<longleftrightarrow> c = CHR ''0''"
  unfolding is_digit_iff by (elim disjE | simp add: digit_val_def)+

lemma is_digit_not_sign: "is_digit c \<Longrightarrow> c \<noteq> CHR ''+'' \<and> c \<noteq> CHR ''-''"
  by (auto simp: is_digit_def)

subsection \<open>The scanning loop\<close>

lemma scan_end: "length buf \<le> i \<Longrightarrow> scan buf i pos found = Scanned pos found"
  by (simp add: scan.simps)

lemma scan_step:
  assumes "i < length buf"
  shows "scan buf i pos found =
    (if isNumberRune (buf ! i) = 0 then Aborted
     else if isNumberRune (buf ! i) = isEOVFlag then Scanned pos found
     else if isNumberRune (buf ! i) AND isMustHaveDigitNext > 0 \<and>
             (length buf < i + 2 \<or> isNumberRune (buf ! (i + 1)) AND isDigitFlag = 0)
       then Aborted
     else scan buf (i + 1) (i + 1) (found OR isNumberRune (buf ! i)))"
  using assms by (subst scan.simps) (simp add: Let_def)

text \<open>
  A token of number bytes whose points and minus signs are followed by digits, ending at
  the end of the buffer or before an EndOfValue byte, is accepted whole.
\<close>

lemma scan_accept:
  assumes "list_all number_byte tok" and "follow_ok tok"
    and "rest = [] \<or> isNumberRune (hd rest) = isEOVFlag"
  shows "scan (pre @ tok @ rest) (length pre) pos found =
    Scanned (if tok = [] then pos else length pre + length tok) (flags_from found tok)"
  using assms(1,2)
proof (induction tok arbitrary: pre pos found)
  case Nil
  show ?case
  proof (cases rest)
    case Nil
    then show ?thesis by (simp add: scan_end flags_from_def)
  next
    case (Cons r rs)
    with assms(3) have "isNumberRune r = isEOVFlag" by simp
    then show ?thesis
      using Cons by (simp add: scan_step flags_from_def isEOVFlag_def)
  qed
next
  case (Cons c cs)
  let ?buf = "pre @ (c # cs) @ rest"
  have len: "length pre < length ?buf" by simp
  have at: "?buf ! length pre = c" by simp
  from Cons.prems have nb: "number_byte c" by simp
  then have t0: "isNumberRune c \<noteq> 0" and teov: "isNumberRune c \<noteq> isEOVFlag"
    using part_flag_iff [of c] by (auto simp: number_byte_def)
  have nxt: "\<not> (isNumberRune c AND isMustHaveDigitNext > 0 \<and>
      (length ?buf < length pre + 2 \<or>
       isNumberRune (?buf ! (length pre + 1)) AND isDigitFlag = 0))"
  proof
    assume a: "isNumberRune c AND isMustHaveDigitNext > 0 \<and>
      (length ?buf < length pre + 2 \<or>
       isNumberRune (?buf ! (length pre + 1)) AND isDigitFlag = 0)"
    then have "c = CHR ''.'' \<or> c = CHR ''-''" by (simp add: must_digit_flag_iff)
    with Cons.prems have "cs \<noteq> []" and "is_digit (hd cs)" by auto
    then obtain d ds where cs: "cs = d # ds" and "is_digit d" by (cases cs) auto
    then have "?buf ! (length pre + 1) = d" by (simp add: nth_append)
    with a cs \<open>is_digit d\<close> show False by (simp add: digit_flag_iff)
  qed
  have "scan ?buf (length pre) pos found =
      scan ?buf (length pre + 1) (length pre + 1) (found OR isNumberRune c)"
    using t0 teov nxt by (subst scan_step [OF len]) (simp only: at if_False)
  also have "?buf = (pre @ [c]) @ cs @ rest" by simp
  also have "scan ((pre @ [c]) @ cs @ rest) (length pre + 1) (length pre + 1)
        (found OR isNumberRune c) =
      Scanned (if cs = [] then length pre + 1 else length (pre @ [c]) + length cs)
        (flags_from (found OR isNumberRune c) cs)"
    using Cons.IH [of "pre @ [c]" "length pre + 1" "found OR isNumberRune c"] Cons.prems
    by simp
  finally show ?case by (simp add: flags_from_def)
qed

text \<open>
  A byte at which the loop returns, with no EndOfValue byte before it, aborts the scan
  wherever the scan is started before it.
\<close>

lemma scan_abort:
  assumes "i < length buf" and "\<forall>j<i. isNumberRune (buf ! j) \<noteq> isEOVFlag" and "bad_at buf i"
    and "k \<le> i"
  shows "scan buf k pos found = Aborted"
  using assms(4)
proof (induction "i - k" arbitrary: k pos found)
  case 0
  then have "k = i" by simp
  have "isNumberRune (buf ! i) AND isMustHaveDigitNext > 0 \<Longrightarrow>
      isNumberRune (buf ! i) \<noteq> isEOVFlag"
    by (auto simp: must_digit_flag_iff isNumberRune_def flag_defs)
  with assms(1,3) show ?case
    unfolding \<open>k = i\<close> bad_at_def by (subst scan_step) auto
next
  case (Suc n)
  then have "k < i" and "k < length buf" using assms(1) by auto
  from Suc have IH: "scan buf (k + 1) (k + 1) (found OR isNumberRune (buf ! k)) = Aborted"
    by (intro Suc.hyps(1)) auto
  from assms(2) \<open>k < i\<close> have "isNumberRune (buf ! k) \<noteq> isEOVFlag" by simp
  then show ?case
    using IH by (subst scan_step [OF \<open>k < length buf\<close>]) simp
qed

lemma no_eov_before:
  assumes "i \<le> length buf" and "\<forall>c \<in> set (take i buf). isNumberRune c \<noteq> isEOVFlag"
  shows "\<forall>j<i. isNumberRune (buf ! j) \<noteq> isEOVFlag"
proof (intro allI impI)
  fix j assume "j < i"
  with assms(1) have "buf ! j \<in> set (take i buf)"
    by (metis in_set_conv_nth length_take min.absorb2 nth_take)
  with assms(2) show "isNumberRune (buf ! j) \<noteq> isEOVFlag" by blast
qed


lemma empty_flags_iff:
  "isNumberRune c = 0 \<longleftrightarrow>
     \<not> is_digit c \<and> c \<notin> set ''+-.eE,}] :'' \<and> c \<notin> {CHR 0x09, CHR 0x0D, CHR 0x0A}"
  by (simp add: is_digit_iff isNumberRune_def flag_defs)

lemma non_ascii_empty: "128 \<le> (of_char c :: nat) \<Longrightarrow> isNumberRune c = 0"
proof -
  assume a: "128 \<le> (of_char c :: nat)"
  have "\<not> number_byte c"
  proof
    assume "number_byte c"
    then have "(of_char c :: nat) < 128"
      unfolding number_byte_iff is_digit_def by (elim disjE) auto
    with a show False by simp
  qed
  moreover have "isNumberRune c \<noteq> isEOVFlag"
  proof
    assume "isNumberRune c = isEOVFlag"
    then have "c \<in> set '',}] :'' \<or> c \<in> {CHR 0x09, CHR 0x0D, CHR 0x0A}"
      by (simp add: isNumberRune_def flag_defs split: if_splits)
    then have "(of_char c :: nat) < 128" by auto
    with a show False by simp
  qed
  ultimately show ?thesis using part_flag_iff [of c] by (simp add: number_byte_def)
qed

lemma flags_from_and:
  "flags_from found tok AND m = 0 \<longleftrightarrow>
     found AND m = 0 \<and> (\<forall>c \<in> set tok. isNumberRune c AND m = 0)"
  unfolding flags_from_def
proof (induction tok arbitrary: found)
  case Nil
  show ?case by simp
next
  case (Cons c cs)
  have "(found OR isNumberRune c) AND m = 0 \<longleftrightarrow> found AND m = 0 \<and> isNumberRune c AND m = 0"
    by (simp add: bit.conj_disj_distrib2 or_eq_0_iff)
  then show ?case by (auto simp: Cons.IH)
qed

subsection \<open>From the buffer to the token\<close>

lemma integer_stage_token:
  "integer_stage pInt pUint K (tok @ rest) (length tok) found =
   integer_stage pInt pUint K tok (length tok) found"
proof -
  have "(1 < length tok \<and> (tok @ rest) ! 0 = c) = (1 < length tok \<and> tok ! 0 = c)" for c
    by (auto simp: nth_append)
  moreover have "(2 < length tok \<and> (tok @ rest) ! 1 = c) = (2 < length tok \<and> tok ! 1 = c)" for c
    by (auto simp: nth_append)
  moreover have "take (length tok) (tok @ rest) = tok" and "take (length tok) tok = tok"
    by simp_all
  ultimately show ?thesis by (simp only: integer_stage_def)
qed

lemma float_stage_token:
  "float_stage pFloat (tok @ rest) (length tok) tag = float_stage pFloat tok (length tok) tag"
proof -
  have "(1 < length tok \<and> (tok @ rest) ! 0 = CHR ''0'' \<and>
         isNumberRune ((tok @ rest) ! 1) AND isFloatOnlyFlag = 0) =
        (1 < length tok \<and> tok ! 0 = CHR ''0'' \<and> isNumberRune (tok ! 1) AND isFloatOnlyFlag = 0)"
    by (auto simp: nth_append)
  moreover have "take (length tok) (tok @ rest) = tok" and "take (length tok) tok = tok"
    by simp_all
  ultimately show ?thesis by (simp only: float_stage_def)
qed

lemma parseNumber_token:
  assumes "list_all number_byte tok" and "follow_ok tok" and "tok \<noteq> []"
    and "rest = [] \<or> isNumberRune (hd rest) = isEOVFlag"
  shows "parseNumber K (tok @ rest) = resolve K tok"
proof -
  have "scan (tok @ rest) 0 0 0 = Scanned (length tok) (flags_from 0 tok)"
    using scan_accept [OF assms(1,2,4), of "[]" 0 0] assms(3) by simp
  then show ?thesis
    using assms(3)
    by (simp add: parseNumber_def parseNumber_with_def resolve_def integer_stage_token
        float_stage_token cong: sum.case_cong)
qed

lemma digits_number_bytes: "list_all is_digit ds \<Longrightarrow> list_all number_byte ds"
  by (simp add: list_all_iff number_byte_iff)

lemma digits_follow_ok: "list_all is_digit ds \<Longrightarrow> follow_ok ds"
  by (induction ds) (auto dest: is_digit_not_sign simp: is_digit_def)

subsection \<open>Digit strings and the integer conversions\<close>

lemma foldl_decimal:
  "foldl (\<lambda>n c. n * 10 + digit_val c) n ds = n * 10 ^ length ds + decimal_value ds"
  unfolding decimal_value_def
proof (induction ds arbitrary: n)
  case Nil
  show ?case by simp
next
  case (Cons c cs)
  let ?f = "\<lambda>n c. n * 10 + digit_val c"
  have "foldl ?f n (c # cs) = foldl ?f (n * 10 + digit_val c) cs" by simp
  also have "\<dots> = (n * 10 + digit_val c) * 10 ^ length cs + foldl ?f 0 cs" by (rule Cons.IH)
  also have "\<dots> = n * 10 ^ length (c # cs) + (digit_val c * 10 ^ length cs + foldl ?f 0 cs)"
    by (simp add: algebra_simps)
  also have "digit_val c * 10 ^ length cs + foldl ?f 0 cs = foldl ?f (digit_val c) cs"
    by (rule Cons.IH [symmetric])
  also have "foldl ?f (digit_val c) cs = foldl ?f 0 (c # cs)" by simp
  finally show ?case .
qed

lemma decimal_value_Nil [simp]: "decimal_value [] = 0"
  by (simp add: decimal_value_def)

lemma decimal_value_Cons:
  "decimal_value (c # cs) = digit_val c * 10 ^ length cs + decimal_value cs"
  using foldl_decimal [of "digit_val c" cs] by (simp add: decimal_value_def)

lemma decimal_value_upper:
  "list_all is_digit ds \<Longrightarrow> decimal_value ds < 10 ^ length ds"
proof (induction ds)
  case Nil
  show ?case by simp
next
  case (Cons c cs)
  then have "digit_val c \<le> 9" and "decimal_value cs < 10 ^ length cs"
    by (simp_all add: digit_val_le)
  then have "digit_val c * 10 ^ length cs + decimal_value cs < 9 * 10 ^ length cs + 10 ^ length cs"
    by (intro add_le_less_mono mult_le_mono1)
  then show ?case by (simp add: decimal_value_Cons)
qed

lemma decimal_value_lower:
  assumes "list_all is_digit ds" and "ds \<noteq> []" and "hd ds \<noteq> CHR ''0''"
  shows "10 ^ (length ds - 1) \<le> decimal_value ds"
proof -
  from assms obtain c cs where ds: "ds = c # cs" and "is_digit c" and "c \<noteq> CHR ''0''"
    by (cases ds) auto
  then have "1 \<le> digit_val c" using digit_val_zero [of c] by simp
  then have "1 * 10 ^ length cs \<le> digit_val c * 10 ^ length cs"
    by (intro mult_le_mono1)
  then show ?thesis by (simp add: ds decimal_value_Cons trans_le_add1)
qed

text \<open>
  The loop of \<^verbatim>\<open>ParseUint\<close> on digits: the value, or a range error once the value
  passes \<^verbatim>\<open>maxUint64\<close>.
\<close>

lemma ParseUint_loop_digits:
  assumes "list_all is_digit ds" and "n \<le> maxUint64"
  shows "ParseUint_loop ds n =
    (if n * 10 ^ length ds + decimal_value ds \<le> maxUint64
     then (n * 10 ^ length ds + decimal_value ds, None) else (maxUint64, Some ErrRange))"
  using assms
proof (induction ds arbitrary: n)
  case Nil
  then show ?case by simp
next
  case (Cons c cs)
  then have d: "is_digit c" and dv: "digit_val c \<le> 9" and cs: "list_all is_digit cs"
    by (simp_all add: digit_val_le)
  let ?v = "(n * 10 + digit_val c) * 10 ^ length cs + decimal_value cs"
  have v: "n * 10 ^ length (c # cs) + decimal_value (c # cs) = ?v"
    by (simp add: decimal_value_Cons algebra_simps)
  have ge: "n * 10 + digit_val c \<le> ?v"
    by (metis le_add1 mult.right_neutral mult_le_mono2 one_le_numeral one_le_power order_trans)
  show ?case
  proof (cases "n \<ge> maxUint64 div 10 + 1")
    case True
    then have "maxUint64 < n * 10 + digit_val c" by (simp add: maxUint64_def)
    with ge have "\<not> ?v \<le> maxUint64" by simp
    with True d show ?thesis unfolding v by simp
  next
    case False
    then have n10: "n * 10 < 2 ^ 64" by (simp add: maxUint64_def)
    show ?thesis
    proof (cases "n * 10 + digit_val c \<le> maxUint64")
      case True
      then have "(n * 10 + digit_val c) mod 2 ^ 64 = n * 10 + digit_val c"
        by (simp add: maxUint64_def)
      with True False d show ?thesis
        unfolding v by (simp add: Let_def Cons.IH [OF cs True])
    next
      case over: False
      then have lo: "2 ^ 64 \<le> n * 10 + digit_val c" by (simp add: maxUint64_def)
      moreover have "n * 10 + digit_val c < 2 * 2 ^ 64" using n10 dv by simp
      ultimately have "(n * 10 + digit_val c) mod 2 ^ 64 = n * 10 + digit_val c - 2 ^ 64"
        by (simp add: mod_if)
      then have "(n * 10 + digit_val c) mod 2 ^ 64 < n * 10" using dv lo by simp
      moreover from over ge have "\<not> ?v \<le> maxUint64" by simp
      ultimately show ?thesis
        using False d unfolding v by (simp add: Let_def)
    qed
  qed
qed

lemma ParseUint_digits:
  assumes "list_all is_digit ds" and "ds \<noteq> []"
  shows "ParseUint ds =
    (if decimal_value ds \<le> maxUint64 then (decimal_value ds, None)
     else (maxUint64, Some ErrRange))"
  using assms by (simp add: ParseUint_def ParseUint_loop_digits maxUint64_def)




lemma ParseInt_digits:
  assumes "list_all is_digit ds" and "ds \<noteq> []"
  shows "ParseInt ds =
    (if decimal_value ds < 2 ^ 63 then (int (decimal_value ds), None)
     else (2 ^ 63 - 1, Some ErrRange))"
proof -
  from assms have "is_digit (hd ds)" by (cases ds) auto
  then have "hd ds \<noteq> CHR ''+''" and "hd ds \<noteq> CHR ''-''" by (simp_all add: is_digit_not_sign)
  then show ?thesis
    using assms by (simp add: ParseInt_def ParseUint_digits maxUint64_def)
qed

lemma ParseInt_minus_digits:
  assumes "list_all is_digit ds" and "ds \<noteq> []"
  shows "ParseInt (CHR ''-'' # ds) =
    (if decimal_value ds \<le> 2 ^ 63 then (- int (decimal_value ds), None)
     else (- (2 ^ 63), Some ErrRange))"
  using assms by (simp add: ParseInt_def ParseUint_digits maxUint64_def)

subsection \<open>Integer tokens\<close>

lemma sint_word_of_int_u64:
  "- (2 ^ 63) \<le> k \<Longrightarrow> k < 2 ^ 63 \<Longrightarrow> sint (word_of_int k :: u64) = k"
  by (simp only: sint_sbintrunc' signed_take_bit_int_eq_self len_num1 len_bit0 mult_2 len_num1)
     (simp add: signed_take_bit_int_eq_self)

lemma digits_flags:
  assumes "list_all is_digit ds"
  shows "flags_from 0 ds AND isFloatOnlyFlag = 0" and "flags_from 0 ds AND isMinusFlag = 0"
  using assms
  by (auto simp: flags_from_and floatonly_flag_iff minus_flag_iff list_all_iff is_digit_def)

lemma minus_digits_flags:
  assumes "list_all is_digit ds"
  shows "flags_from 0 (CHR ''-'' # ds) AND isFloatOnlyFlag = 0"
    and "flags_from 0 (CHR ''-'' # ds) AND isMinusFlag \<noteq> 0"
  using assms
  by (auto simp: flags_from_and floatonly_flag_iff minus_flag_iff list_all_iff is_digit_def)

lemma json_int_digits: "json_int ds \<Longrightarrow> list_all is_digit ds \<and> ds \<noteq> []"
  by (auto simp: json_int_def is_digit_def)

lemma json_int_no_leading_zero:
  "json_int ds \<Longrightarrow> \<not> (1 < length ds \<and> ds ! 0 = CHR ''0'')"
  by (cases ds) (auto simp: json_int_def)

lemma json_int_length:
  assumes "json_int ds" and "decimal_value ds < 10 ^ n" and "0 < n"
  shows "length ds \<le> n"
proof (cases "ds = ''0''")
  case True
  with assms(3) show ?thesis by simp
next
  case False
  with assms(1) have "list_all is_digit ds" "ds \<noteq> []" "hd ds \<noteq> CHR ''0''"
    by (auto simp: json_int_def)
  then have "(10::nat) ^ (length ds - 1) \<le> decimal_value ds" by (rule decimal_value_lower)
  from le_less_trans [OF this assms(2)] have "length ds - 1 < n" by simp
  then show ?thesis by simp
qed

text \<open>The integer attempt on digits without a leading zero, of at most 20 bytes.\<close>

lemma resolve_digits:
  assumes "json_int ds" and "length ds \<le> 20"
  shows "resolve K ds =
    (if decimal_value ds < 2 ^ 63 then (integerTag K, word_of_nat (decimal_value ds))
     else if decimal_value ds \<le> maxUint64 then (uintTag K, word_of_nat (decimal_value ds))
     else float_stage ParseFloat ds (length ds) (floatTag K OR FloatOverflowedInteger K))"
  using assms json_int_digits [OF assms(1)] json_int_no_leading_zero [OF assms(1)]
  by (auto simp: resolve_def integer_stage_def digits_flags ParseInt_digits ParseUint_digits
      maxIntLen_def)

lemma resolve_minus_digits:
  assumes "json_int ds" and "length ds \<le> 19"
  shows "resolve K (CHR ''-'' # ds) =
    (if decimal_value ds \<le> 2 ^ 63 then (integerTag K, word_of_int (- int (decimal_value ds)))
     else float_stage ParseFloat (CHR ''-'' # ds) (length ds + 1)
            (floatTag K OR FloatOverflowedInteger K))"
  using assms json_int_digits [OF assms(1)] json_int_no_leading_zero [OF assms(1)]
  by (auto simp: resolve_def integer_stage_def minus_digits_flags ParseInt_minus_digits
      maxIntLen_def)

subsection \<open>Digit strings and the float conversion\<close>

lemma is_digit_not_point: "is_digit c \<Longrightarrow> c \<noteq> CHR ''.''"
  by (auto simp: is_digit_def)

lemma mantissa_loop_digits:
  assumes "list_all is_digit ds"
  shows "mantissa_loop (ds @ r) sawdot sawdigits mant k =
    mantissa_loop r sawdot (sawdigits \<or> ds \<noteq> []) (mant * 10 ^ length ds + decimal_value ds)
      (if sawdot then k + length ds else k)"
  using assms
proof (induction ds arbitrary: sawdigits mant k)
  case Nil
  show ?case by simp
next
  case (Cons c cs)
  then have "is_digit c" and "c \<noteq> CHR ''.''" and cs: "list_all is_digit cs"
    by (simp_all add: is_digit_not_point)
  then show ?case
    by (simp add: Cons.IH [OF cs] decimal_value_Cons algebra_simps)
qed

lemma readFloat_digits:
  assumes "list_all is_digit ds" and "ds \<noteq> []"
  shows "readFloat ds = Some (False, decimal_value ds, 0, [])"
proof -
  from assms have "is_digit (hd ds)" by (cases ds) auto
  then have "hd ds \<noteq> CHR ''+''" and "hd ds \<noteq> CHR ''-''" by (simp_all add: is_digit_not_sign)
  moreover have "mantissa_loop ds False False 0 0 = (True, decimal_value ds, 0, [])"
    using mantissa_loop_digits [OF assms(1), of "[]" False False 0 0] assms(2) by simp
  ultimately show ?thesis using assms(2) by (simp add: readFloat_def read_exponent_def)
qed

lemma ParseFloat_digits:
  assumes "list_all is_digit ds" and "ds \<noteq> []"
  shows "ParseFloat ds =
    (if decimal_value ds = 0 then (0, None)
     else if 2047 * 2 ^ 52 \<le> f64_round (decimal_value ds) 1
       then (push_bit 52 2047, Some ErrRange)
     else (word_of_nat (f64_round (decimal_value ds) 1), None))"
  by (simp add: ParseFloat_def readFloat_digits [OF assms])

text \<open>From \<open>2 ^ 1025\<close> on the exponent field alone reaches 2047.\<close>

lemma f64_round_overflow:
  assumes "2 ^ 1025 \<le> p"
  shows "2047 * 2 ^ 52 \<le> f64_round p 1"
proof -
  have "Suc 1025 \<le> floorlog 2 p" using assms by (intro floorlog_ge_SucI) simp_all
  moreover have "0 < p"
    using assms by (metis gr0I not_less_eq_eq power_not_zero zero_neq_numeral le_zero_eq)
  ultimately have E: "1025 \<le> ilog2_ratio p 1"
    by (simp add: ilog2_ratio_def Suc_le_eq)
  then have "2047 \<le> nat (max (ilog2_ratio p 1) (- 1022) + 1022)" by simp
  then have "2047 * 2 ^ 52 \<le> nat (max (ilog2_ratio p 1) (- 1022) + 1022) * 2 ^ 52"
    by (rule mult_le_mono1)
  then show ?thesis by (simp add: f64_round_def Let_def trans_le_add1)
qed

lemma float_stage_digits:
  assumes "list_all is_digit ds" and "ds \<noteq> []" and "hd ds \<noteq> CHR ''0''"
  shows "float_stage ParseFloat ds (length ds) tag =
    (if decimal_value ds = 0 then (tag, 0)
     else if 2047 * 2 ^ 52 \<le> f64_round (decimal_value ds) 1 then (0, 0)
     else (tag, word_of_nat (f64_round (decimal_value ds) 1)))"
proof -
  from assms(2,3) have "ds ! 0 \<noteq> CHR ''0''" by (cases ds) auto
  then show ?thesis
    by (simp add: float_stage_def ParseFloat_digits [OF assms(1,2)])
qed

lemma resolve_long_digits:
  assumes "list_all is_digit ds" and "20 < length ds"
  shows "resolve K ds =
    float_stage ParseFloat ds (length ds) (floatTag K OR FloatOverflowedInteger K)"
  using assms by (simp add: resolve_def integer_stage_def maxIntLen_def digits_flags)

text \<open>Digits without a leading zero whose value is beyond \<^verbatim>\<open>maxUint64\<close>, of any length.\<close>

lemma resolve_big_digits:
  assumes "list_all is_digit ds" and "ds \<noteq> []" and "hd ds \<noteq> CHR ''0''"
    and "maxUint64 < decimal_value ds"
  shows "resolve K ds =
    (if 2047 * 2 ^ 52 \<le> f64_round (decimal_value ds) 1 then (0, 0)
     else (floatTag K OR FloatOverflowedInteger K,
           word_of_nat (f64_round (decimal_value ds) 1)))"
proof (cases "length ds \<le> 20")
  case True
  from assms have j: "json_int ds" by (simp add: json_int_def)
  have "\<not> decimal_value ds < 2 ^ 63" using assms(4) by (simp add: maxUint64_def)
  with assms(4) show ?thesis
    by (simp add: resolve_digits [OF j True] float_stage_digits [OF assms(1-3)])
next
  case False
  with assms(4) show ?thesis
    by (simp add: resolve_long_digits [OF assms(1)] float_stage_digits [OF assms(1-3)])
qed

lemma decimal_value_zeros: "decimal_value (replicate n (CHR ''0'')) = 0"
  by (induction n) (simp_all add: decimal_value_Cons digit_val_def)

text \<open>The digit 1 followed by \<open>n\<close> zeros.\<close>

lemma one_and_zeros_digits: "list_all is_digit (CHR ''1'' # replicate n (CHR ''0''))"
  by (simp add: list_all_iff is_digit_def)

lemma one_and_zeros_value: "decimal_value (CHR ''1'' # replicate n (CHR ''0'')) = 10 ^ n"
  by (simp add: decimal_value_Cons decimal_value_zeros digit_val_def)

lemma one_and_zeros_overflow:
  assumes "2 ^ 1025 \<le> (10::nat) ^ n" and "20 < n"
  shows "parseNumber K (CHR ''1'' # replicate n (CHR ''0'')) = (0, 0)"
proof -
  let ?ds = "CHR ''1'' # replicate n (CHR ''0'')"
  note d = one_and_zeros_digits [of n]
  have "(2::nat) ^ 1025 \<le> decimal_value ?ds"
    using assms(1) by (simp only: one_and_zeros_value)
  then have ov: "2047 * 2 ^ 52 \<le> f64_round (decimal_value ?ds) 1"
    by (rule f64_round_overflow)
  have "parseNumber K (?ds @ []) = resolve K ?ds"
    using d by (intro parseNumber_token digits_number_bytes digits_follow_ok) simp_all
  moreover have "resolve K ?ds =
      float_stage ParseFloat ?ds (length ?ds) (floatTag K OR FloatOverflowedInteger K)"
    using d assms(2) by (intro resolve_long_digits) simp_all
  moreover have "float_stage ParseFloat ?ds (length ?ds) tag = (0, 0)" for tag
  proof -
    have ne: "?ds \<noteq> []" and h: "hd ?ds \<noteq> CHR ''0''" by simp_all
    have "decimal_value ?ds \<noteq> 0" by (simp only: one_and_zeros_value) simp
    with ov show ?thesis unfolding float_stage_digits [OF d ne h] by simp
  qed
  ultimately show ?thesis by simp
qed

subsection \<open>What an accepted scan says about the token\<close>




subsection \<open>The rounding of integers and finiteness\<close>







subsection \<open>The rounding is to the nearest double\<close>

text \<open>
  \<open>f64_value\<close> is strictly increasing in the bits, and the two bit patterns around
  \<open>p / q\<close> that \<open>f64_round\<close> chooses between are neighbours. So \<open>f64_round p q\<close> is
  nearest to \<open>p / q\<close> among all bit patterns, and the word that \<^verbatim>\<open>ParseFloat\<close> returns
  is nearest to the decimal number that \<open>readFloat\<close> has read.
\<close>

lemma div_mod_block:
  fixes n :: nat
  assumes "k < n"
  shows "(a * n + k) div n = a" and "(a * n + k) mod n = k"
  using assms by simp_all

lemma two_powi_Suc: "(2::rat) powi (i + 1) = 2 powi i * 2"
  using power_int_add [of "2::rat" i 1] by simp

lemma f64_value_grid:
  assumes "- 1022 \<le> E" and "m \<le> 2 ^ 53" and "E = - 1022 \<or> 2 ^ 52 \<le> m"
  shows "f64_value (nat (E + 1022) * 2 ^ 52 + m) = of_nat m * 2 powi (E - 52)"
proof -
  consider (sub) "m < 2 ^ 52" "E = - 1022" | (norm) "2 ^ 52 \<le> m" "m < 2 ^ 53" | (top) "m = 2 ^ 53"
    using assms by linarith
  then show ?thesis
  proof cases
    case sub
    then show ?thesis by (simp add: f64_value_def)
  next
    case norm
    define k where "k = m - 2 ^ 52"
    have m: "m = 2 ^ 52 + k" and k: "k < 2 ^ 52" using norm by (simp_all add: k_def)
    have b: "nat (E + 1022) * 2 ^ 52 + m = (nat (E + 1022) + 1) * 2 ^ 52 + k"
      by (simp add: m algebra_simps)
    have d: "((nat (E + 1022) + 1) * 2 ^ 52 + k) div 2 ^ 52 = nat (E + 1022) + 1"
      and md: "((nat (E + 1022) + 1) * 2 ^ 52 + k) mod 2 ^ 52 = k"
      by (rule div_mod_block [OF k])+
    have e: "int (nat (E + 1022) + 1) - 1075 = E - 52" using assms(1) by simp
    show ?thesis unfolding b f64_value_def Let_def d md e by (simp add: m)
  next
    case top
    have b: "nat (E + 1022) * 2 ^ 52 + m = (nat (E + 1022) + 2) * 2 ^ 52 + 0"
      by (simp add: top algebra_simps)
    have d: "((nat (E + 1022) + 2) * 2 ^ 52 + 0) div 2 ^ 52 = nat (E + 1022) + 2"
      and md: "((nat (E + 1022) + 2) * 2 ^ 52 + 0) mod 2 ^ 52 = 0"
      by (rule div_mod_block, simp)+
    have e: "int (nat (E + 1022) + 2) - 1075 = (E - 52) + 1" using assms(1) by simp
    show ?thesis unfolding b f64_value_def Let_def d md e two_powi_Suc by (simp add: top)
  qed
qed

lemma f64_value_Suc: "f64_value b < f64_value (Suc b)"
proof -
  define e where "e = b div 2 ^ 52"
  define m where "m = b mod 2 ^ 52"
  have b: "b = e * 2 ^ 52 + m" and m: "m < 2 ^ 52" by (simp_all add: e_def m_def)
  have pos: "(0::rat) < 2 powi i" for i by simp
  show ?thesis
  proof (cases "m + 1 < 2 ^ 52")
    case True
    have "Suc b = e * 2 ^ 52 + (m + 1)" unfolding b by simp
    then have d: "Suc b div 2 ^ 52 = e" and md: "Suc b mod 2 ^ 52 = m + 1"
      using div_mod_block [OF True, of e] by simp_all
    have d0: "b div 2 ^ 52 = e" and md0: "b mod 2 ^ 52 = m" by (simp_all add: e_def m_def)
    show ?thesis unfolding f64_value_def Let_def d md d0 md0
      by (simp add: pos)
  next
    case False
    then have m': "m = 2 ^ 52 - 1" using m by simp
    have sb: "Suc b = (e + 1) * 2 ^ 52 + 0" unfolding b m' by (simp add: algebra_simps)
    have d: "Suc b div 2 ^ 52 = e + 1" and md: "Suc b mod 2 ^ 52 = 0"
      unfolding sb by (rule div_mod_block, simp)+
    have d0: "b div 2 ^ 52 = e" and md0: "b mod 2 ^ 52 = m" by (simp_all add: e_def m_def)
    have s: "(2::rat) powi (int (e + 1) - 1075) = 2 powi (int e - 1075) * 2"
    proof -
      have "int (e + 1) - 1075 = (int e - 1075) + 1" by simp
      then show ?thesis by (simp only: two_powi_Suc)
    qed
    show ?thesis
    proof (cases "e = 0")
      case True
      have "(2::rat) powi (- 1074) = 2 powi (- 1075) * 2"
        using s True by simp
      then show ?thesis unfolding f64_value_def Let_def d md d0 md0 using True
        by (simp add: m')
    next
      case False
      then show ?thesis unfolding f64_value_def Let_def d md d0 md0 s
        by (simp add: m' pos)
    qed
  qed
qed

lemma f64_value_mono: "b < b' \<Longrightarrow> f64_value b < f64_value b'"
  by (rule lift_Suc_mono_less [of f64_value]) (rule f64_value_Suc)

lemma f64_value_mono_le: "b \<le> b' \<Longrightarrow> f64_value b \<le> f64_value b'"
  using f64_value_mono [of b b'] by (cases "b = b'") simp_all

lemma div_rat_bounds:
  fixes n d :: nat
  assumes "0 < d"
  shows "(of_nat (n div d) :: rat) \<le> of_nat n / of_nat d"
    and "(of_nat n / of_nat d :: rat) < of_nat (n div d) + 1"
proof -
  have "n div d * d \<le> n" by simp
  then have "(of_nat (n div d * d) :: rat) \<le> of_nat n" by (simp only: of_nat_le_iff)
  then show "(of_nat (n div d) :: rat) \<le> of_nat n / of_nat d"
    using assms by (simp add: pos_le_divide_eq)
  have "n < (n div d + 1) * d" using assms dividend_less_div_times [of d n] by (simp add: algebra_simps)
  then have "(of_nat n :: rat) < of_nat ((n div d + 1) * d)" by (simp only: of_nat_less_iff)
  then show "(of_nat n / of_nat d :: rat) < of_nat (n div d) + 1"
    using assms by (simp add: pos_divide_less_eq algebra_simps)
qed

lemma rne_cases:
  fixes n d :: nat
  assumes "0 < d"
  defines "y \<equiv> (of_nat n / of_nat d :: rat)"
  shows "(rne n d = n div d \<and> y - of_nat (n div d) \<le> of_nat (n div d) + 1 - y) \<or>
         (rne n d = n div d + 1 \<and> of_nat (n div d) + 1 - y \<le> y - of_nat (n div d))"
proof -
  define fl where "fl = n div d"
  define r where "r = n mod d"
  have n: "n = fl * d + r" by (simp add: fl_def r_def)
  have dpos: "(0::rat) < of_nat d" using assms(1) by simp
  have y: "y = of_nat fl + of_nat r / of_nat d"
    unfolding y_def n using dpos by (simp add: add_divide_distrib)
  have lo: "y - of_nat fl \<le> of_nat fl + 1 - y \<longleftrightarrow> 2 * r \<le> d"
  proof -
    have "y - of_nat fl \<le> of_nat fl + 1 - y \<longleftrightarrow> 2 * (of_nat r / of_nat d) \<le> (1::rat)"
      unfolding y by auto
    also have "\<dots> \<longleftrightarrow> (2 * of_nat r :: rat) \<le> of_nat d"
      using dpos by (simp add: pos_divide_le_eq)
    also have "\<dots> \<longleftrightarrow> (of_nat (2 * r) :: rat) \<le> of_nat d" by simp
    also have "\<dots> \<longleftrightarrow> 2 * r \<le> d" by (simp only: of_nat_le_iff)
    finally show ?thesis .
  qed
  have hi: "of_nat fl + 1 - y \<le> y - of_nat fl \<longleftrightarrow> d \<le> 2 * r"
  proof -
    have "of_nat fl + 1 - y \<le> y - of_nat fl \<longleftrightarrow> (1::rat) \<le> 2 * (of_nat r / of_nat d)"
      unfolding y by auto
    also have "\<dots> \<longleftrightarrow> (of_nat d :: rat) \<le> 2 * of_nat r"
      using dpos by (simp add: pos_le_divide_eq)
    also have "\<dots> \<longleftrightarrow> (of_nat d :: rat) \<le> of_nat (2 * r)" by simp
    also have "\<dots> \<longleftrightarrow> d \<le> 2 * r" by (simp only: of_nat_le_iff)
    finally show ?thesis .
  qed
  have "(rne n d = fl \<and> 2 * r \<le> d) \<or> (rne n d = fl + 1 \<and> d \<le> 2 * r)"
    unfolding rne_def Let_def fl_def [symmetric] r_def [symmetric] by auto
  then show ?thesis unfolding fl_def [symmetric] using lo hi by blast
qed

lemma nearest_between:
  fixes x a c :: rat
  assumes B: "f64_value B = a" and SB: "f64_value (Suc B) = c"
    and ax: "a \<le> x" and xc: "x < c"
    and b: "(b = B \<and> x - a \<le> c - x) \<or> (b = Suc B \<and> c - x \<le> x - a)"
  shows "\<bar>f64_value b - x\<bar> \<le> \<bar>f64_value b' - x\<bar>"
proof (cases "b' \<le> B")
  case True
  then have "f64_value b' \<le> a" using f64_value_mono_le [of b' B] B by simp
  then show ?thesis using b B SB ax xc by auto
next
  case False
  then have "Suc B \<le> b'" by simp
  then have "c \<le> f64_value b'" using f64_value_mono_le [of "Suc B" b'] SB by simp
  then show ?thesis using b B SB ax xc by auto
qed

lemma two_powi_nat: "(2::rat) powi (int k) = 2 ^ k"
  by simp

lemma ilog2_ratio_bounds:
  assumes "0 < p" and "0 < q"
  shows "2 powi (ilog2_ratio p q) \<le> (of_nat p / of_nat q :: rat)"
    and "(of_nat p / of_nat q :: rat) < 2 powi (ilog2_ratio p q + 1)"
proof -
  have qpos: "(0::rat) < of_nat q" and ppos: "(0::rat) < of_nat p" using assms by simp_all
  have "2 powi (ilog2_ratio p q) \<le> (of_nat p / of_nat q :: rat) \<and>
        (of_nat p / of_nat q :: rat) < 2 powi (ilog2_ratio p q + 1)"
  proof (cases "q \<le> p")
    case True
    define n where "n = p div q"
    define L where "L = floorlog 2 n"
    have npos: "0 < n" using True assms(2) by (simp add: n_def div_greater_zero_iff)
    from floorlog_bounds [OF npos, of 2] have lo: "2 ^ (L - 1) \<le> n" and hi: "n < 2 ^ L"
      by (simp_all add: L_def)
    have Lpos: "1 \<le> L" using hi npos by (cases L) simp_all
    have il: "ilog2_ratio p q = int (L - 1)" and il1: "ilog2_ratio p q + 1 = int L"
      using True Lpos by (simp_all add: ilog2_ratio_def n_def L_def)
    have "(2::rat) ^ (L - 1) \<le> of_nat n"
      using lo by (metis of_nat_le_iff of_nat_numeral of_nat_power)
    also have "\<dots> \<le> of_nat p / of_nat q" unfolding n_def by (rule div_rat_bounds [OF assms(2)])
    finally have 1: "(2::rat) ^ (L - 1) \<le> of_nat p / of_nat q" .
    have "Suc n \<le> 2 ^ L" using hi by simp
    then have "(of_nat (Suc n) :: rat) \<le> 2 ^ L"
      by (metis of_nat_le_iff of_nat_numeral of_nat_power)
    then have "(of_nat n + 1 :: rat) \<le> 2 ^ L" by simp
    moreover have "(of_nat p / of_nat q :: rat) < of_nat n + 1"
      unfolding n_def by (rule div_rat_bounds [OF assms(2)])
    ultimately have 2: "(of_nat p / of_nat q :: rat) < 2 ^ L" by simp
    show ?thesis by (subst il1, subst il) (use 1 2 in \<open>simp only: two_powi_nat simp_thms\<close>)
  next
    case False
    define n where "n = (q - 1) div p"
    define L where "L = floorlog 2 n"
    have "p \<le> q - 1" using False by simp
    then have npos: "0 < n" using assms(1) by (simp add: n_def div_greater_zero_iff)
    from floorlog_bounds [OF npos, of 2] have lo: "2 ^ (L - 1) \<le> n" and hi: "n < 2 ^ L"
      by (simp_all add: L_def)
    have Lpos: "1 \<le> L" using hi npos by (cases L) simp_all
    have il: "ilog2_ratio p q = - int L" and il1: "ilog2_ratio p q + 1 = - int (L - 1)"
      using False Lpos by (simp_all add: ilog2_ratio_def n_def L_def)
    have "q - 1 < (n + 1) * p"
      using dividend_less_div_times [OF assms(1), of "q - 1"] by (simp add: n_def algebra_simps)
    also have "\<dots> \<le> 2 ^ L * p" using hi by (intro mult_right_mono) simp_all
    finally have "q \<le> 2 ^ L * p" by simp
    then have "(of_nat q :: rat) \<le> of_nat (2 ^ L * p)" by (simp only: of_nat_le_iff)
    then have q1: "(of_nat q :: rat) \<le> 2 ^ L * of_nat p" by simp
    have 1: "inverse ((2::rat) ^ L) \<le> of_nat p / of_nat q"
    proof -
      have "(1::rat) \<le> 2 ^ L * of_nat p / of_nat q"
        using q1 qpos by (simp add: pos_le_divide_eq)
      then have "(1::rat) / 2 ^ L \<le> of_nat p / of_nat q"
        by (simp add: pos_divide_le_eq algebra_simps)
      then show ?thesis by (simp add: inverse_eq_divide)
    qed
    have "2 ^ (L - 1) * p \<le> n * p" using lo by simp
    also have "\<dots> \<le> q - 1" by (simp add: n_def)
    also have "\<dots> < q" using assms(2) by simp
    finally have "2 ^ (L - 1) * p < q" .
    then have "(of_nat (2 ^ (L - 1) * p) :: rat) < of_nat q" by (simp only: of_nat_less_iff)
    then have q2: "(2 ^ (L - 1) * of_nat p :: rat) < of_nat q" by simp
    have 2: "(of_nat p / of_nat q :: rat) < inverse (2 ^ (L - 1))"
    proof -
      have "(2 ^ (L - 1) * of_nat p / of_nat q :: rat) < 1"
        using q2 qpos by (simp add: pos_divide_less_eq)
      then have "(of_nat p / of_nat q :: rat) < 1 / 2 ^ (L - 1)"
        by (simp add: pos_less_divide_eq algebra_simps)
      then show ?thesis by (simp add: inverse_eq_divide)
    qed
    show ?thesis
      by (subst il1, subst il) (use 1 2 in \<open>simp only: power_int_minus two_powi_nat simp_thms\<close>)
  qed
  then show "2 powi (ilog2_ratio p q) \<le> (of_nat p / of_nat q :: rat)"
    and "(of_nat p / of_nat q :: rat) < 2 powi (ilog2_ratio p q + 1)" by simp_all
qed

lemma two_powi_mono: "i \<le> j \<Longrightarrow> (2::rat) powi i \<le> 2 powi j"
  by (rule power_int_increasing) simp_all

lemma scaled_fraction:
  fixes p q :: nat
  assumes "0 < q"
  shows "(of_nat (if E \<le> 52 then p * 2 ^ nat (52 - E) else p) /
          of_nat (if E \<le> 52 then q else q * 2 ^ nat (E - 52)) :: rat) =
         of_nat p / of_nat q * 2 powi (52 - E)"
proof (cases "E \<le> 52")
  case True
  then have "(2::rat) powi (52 - E) = 2 ^ nat (52 - E)" by (simp add: power_int_def)
  then show ?thesis using True by simp
next
  case False
  then have "52 - E = - int (nat (E - 52))" by simp
  then have "(2::rat) powi (52 - E) = inverse (2 ^ nat (E - 52))"
    by (simp only: power_int_minus two_powi_nat)
  then show ?thesis using False by (simp add: divide_inverse)
qed

lemma f64_round_nearest:
  assumes "0 < p" and "0 < q"
  shows "\<bar>f64_value (f64_round p q) - of_nat p / of_nat q\<bar> \<le> \<bar>f64_value b - of_nat p / of_nat q\<bar>"
proof -
  define x :: rat where "x = of_nat p / of_nat q"
  define E where "E = max (ilog2_ratio p q) (- 1022)"
  define p' where "p' = (if E \<le> 52 then p * 2 ^ nat (52 - E) else p)"
  define q' where "q' = (if E \<le> 52 then q else q * 2 ^ nat (E - 52))"
  define y :: rat where "y = of_nat p' / of_nat q'"
  define u :: rat where "u = 2 powi (E - 52)"
  define fl where "fl = p' div q'"
  define B where "B = nat (E + 1022) * 2 ^ 52 + fl"
  have q'pos: "0 < q'" using assms(2) by (simp add: q'_def)
  have upos: "0 < u" by (simp add: u_def)
  have E: "- 1022 \<le> E" by (simp add: E_def)
  have y: "y = x * 2 powi (52 - E)"
    unfolding y_def p'_def q'_def x_def by (rule scaled_fraction [OF assms(2)])
  have "2 powi (52 - E) * u = (1::rat)"
    unfolding u_def using power_int_add [of "2::rat" "52 - E" "E - 52"] by simp
  then have x: "x = y * u" unfolding y by (simp add: mult.assoc)
  have round: "f64_round p q = nat (E + 1022) * 2 ^ 52 + rne p' q'"
    unfolding f64_round_def Let_def E_def [symmetric] p'_def q'_def by simp
  have fl_le: "of_nat fl \<le> y" and fl_gt: "y < of_nat fl + 1"
    unfolding fl_def y_def by (rule div_rat_bounds [OF q'pos])+
  have x_hi: "x < 2 powi (E + 1)"
  proof -
    have "x < 2 powi (ilog2_ratio p q + 1)"
      unfolding x_def by (rule ilog2_ratio_bounds [OF assms])
    also have "\<dots> \<le> 2 powi (E + 1)" by (rule two_powi_mono) (simp add: E_def)
    finally show ?thesis .
  qed
  have y_hi: "y < 2 ^ 53"
  proof -
    have "y < 2 powi (E + 1) * 2 powi (52 - E)"
      unfolding y using x_hi by (simp add: mult_strict_right_mono)
    also have "\<dots> = 2 powi 53"
      using power_int_add [of "2::rat" "E + 1" "52 - E"] by simp
    finally show ?thesis by simp
  qed
  have fl_hi: "fl + 1 \<le> 2 ^ 53"
  proof -
    have "(of_nat fl :: rat) < of_nat (2 ^ 53)" using fl_le y_hi by simp
    then have "fl < 2 ^ 53" by (simp only: of_nat_less_iff)
    then show ?thesis by simp
  qed
  have fl_lo: "E = - 1022 \<or> 2 ^ 52 \<le> fl"
  proof (cases "E = - 1022")
    case False
    then have il: "ilog2_ratio p q = E" using E by (simp add: E_def max_def split: if_splits)
    have "2 powi E \<le> x"
      using ilog2_ratio_bounds(1) [OF assms] unfolding il x_def .
    then have "2 powi E * 2 powi (52 - E) \<le> y"
      unfolding y by (simp add: mult_right_mono)
    moreover have "(2::rat) powi E * 2 powi (52 - E) = 2 powi 52"
      using power_int_add [of "2::rat" E "52 - E"] by simp
    ultimately have "(2::rat) ^ 52 \<le> y" by simp
    then have "(of_nat (2 ^ 52) :: rat) < of_nat (fl + 1)" using fl_gt by simp
    then have "2 ^ 52 < fl + 1" by (simp only: of_nat_less_iff)
    then show ?thesis by simp
  qed simp
  have gB: "f64_value B = of_nat fl * u"
    unfolding B_def u_def using fl_hi fl_lo by (intro f64_value_grid E) auto
  have "f64_value (nat (E + 1022) * 2 ^ 52 + (fl + 1)) = of_nat (fl + 1) * u"
    unfolding u_def using fl_hi fl_lo by (intro f64_value_grid E) auto
  then have gS: "f64_value (Suc B) = (of_nat fl + 1) * u" by (simp add: B_def)
  have ax: "of_nat fl * u \<le> x" unfolding x using fl_le upos by (simp add: mult_right_mono)
  have xc: "x < (of_nat fl + 1) * u" unfolding x using fl_gt upos by (simp add: mult_strict_right_mono)
  from rne_cases [OF q'pos, of p']
  have "(f64_round p q = B \<and> x - of_nat fl * u \<le> (of_nat fl + 1) * u - x) \<or>
        (f64_round p q = Suc B \<and> (of_nat fl + 1) * u - x \<le> x - of_nat fl * u)"
  proof (elim disjE conjE)
    assume r: "rne p' q' = p' div q'"
      and h: "of_nat p' / of_nat q' - rat_of_nat (p' div q') \<le> rat_of_nat (p' div q') + 1 - of_nat p' / of_nat q'"
    from h have "y - of_nat fl \<le> of_nat fl + 1 - y" by (simp add: y_def fl_def)
    then have "(y - of_nat fl) * u \<le> (of_nat fl + 1 - y) * u"
      using upos by (simp add: mult_right_mono)
    then have "x - of_nat fl * u \<le> (of_nat fl + 1) * u - x"
      unfolding x by (simp add: algebra_simps)
    moreover have "f64_round p q = B" unfolding round B_def r fl_def ..
    ultimately show ?thesis by blast
  next
    assume r: "rne p' q' = p' div q' + 1"
      and h: "rat_of_nat (p' div q') + 1 - of_nat p' / of_nat q' \<le> of_nat p' / of_nat q' - rat_of_nat (p' div q')"
    from h have "of_nat fl + 1 - y \<le> y - of_nat fl" by (simp add: y_def fl_def)
    then have "(of_nat fl + 1 - y) * u \<le> (y - of_nat fl) * u"
      using upos by (simp add: mult_right_mono)
    then have "(of_nat fl + 1) * u - x \<le> x - of_nat fl * u"
      unfolding x by (simp add: algebra_simps)
    moreover have "f64_round p q = Suc B" unfolding round B_def r fl_def by simp
    ultimately show ?thesis by blast
  qed
  from nearest_between [OF gB gS ax xc this]
  show ?thesis unfolding x_def .
qed

lemma f64_value_nonneg: "0 \<le> f64_value b"
  by (simp add: f64_value_def Let_def)

lemma f64_value_zero: "f64_value 0 = 0"
  by (simp add: f64_value_def)

lemma unat_sign_or:
  assumes "b < 2 ^ 63"
  shows "unat (push_bit 63 1 OR word_of_nat b :: u64) = 2 ^ 63 + b"
    and "unat (0 OR word_of_nat b :: u64) = b"
proof -
  have ub: "unat (word_of_nat b :: u64) = b" using assms by (simp add: unat_of_nat)
  show "unat (0 OR word_of_nat b :: u64) = b" using ub by simp
  have nb: "\<not> bit b 63" using assms by (simp add: bit_iff_odd)
  have "b AND 2 ^ 63 = 0" using nb by (rule and_exp_eq_0_iff_not_bit [THEN iffD2])
  then have "2 ^ 63 AND b = 0" by (simp only: and.commute)
  then have "(2 ^ 63 :: nat) + b = 2 ^ 63 OR b" by (rule disjunctive_add_eq_or)
  moreover have "unat (push_bit 63 1 :: u64) = 2 ^ 63" by simp
  ultimately show "unat (push_bit 63 1 OR word_of_nat b :: u64) = 2 ^ 63 + b"
    by (simp only: unsigned_or_eq ub)
qed

lemma f64_decode_sign_or:
  assumes "b < 2 ^ 63"
  shows "f64_decode (push_bit 63 1 OR word_of_nat b) = - f64_value b"
    and "f64_decode (0 OR word_of_nat b) = f64_value b"
  unfolding f64_decode_def unat_sign_or [OF assms] using assms by simp_all

lemma f64_decode_sign:
  "f64_decode (push_bit 63 1) = 0" "f64_decode 0 = 0"
  by (simp_all add: f64_decode_def f64_value_zero)

lemma f64_decode_cases:
  "(\<exists>n. f64_decode w = f64_value n) \<or> (\<exists>n. f64_decode w = - f64_value n)"
  unfolding f64_decode_def by auto

lemma signed_nearest:
  fixes x :: rat
  assumes "0 \<le> x" and "\<And>n. \<bar>f64_value b - x\<bar> \<le> \<bar>f64_value n - x\<bar>"
  shows "\<bar>f64_value b - x\<bar> \<le> \<bar>f64_decode w - x\<bar>"
    and "\<bar>- f64_value b - (- x)\<bar> \<le> \<bar>f64_decode w - (- x)\<bar>"
proof -
  have z: "\<bar>f64_value b - x\<bar> \<le> x" using assms(2) [of 0] assms(1) by (simp add: f64_value_zero)
  from f64_decode_cases [of w]
  show "\<bar>f64_value b - x\<bar> \<le> \<bar>f64_decode w - x\<bar>"
  proof (elim disjE exE)
    fix n assume "f64_decode w = f64_value n"
    then show ?thesis using assms(2) [of n] by simp
  next
    fix n assume "f64_decode w = - f64_value n"
    then show ?thesis using z f64_value_nonneg [of n] assms(1) by simp
  qed
  from f64_decode_cases [of w]
  show "\<bar>- f64_value b - (- x)\<bar> \<le> \<bar>f64_decode w - (- x)\<bar>"
  proof (elim disjE exE)
    fix n assume "f64_decode w = - f64_value n"
    then show ?thesis using assms(2) [of n] by simp
  next
    fix n assume "f64_decode w = f64_value n"
    then show ?thesis using z f64_value_nonneg [of n] assms(1) by simp
  qed
qed

text \<open>The number that \<open>readFloat\<close> hands to the rounding.\<close>

lemma decimal_fraction:
  fixes mant :: nat
  shows "(of_nat (if 0 \<le> ex then mant * 10 ^ nat ex else mant) /
          of_nat (if 0 \<le> ex then 1 else 10 ^ nat (- ex)) :: rat) = of_nat mant * 10 powi ex"
proof (cases "0 \<le> ex")
  case True
  then have "(10::rat) powi ex = 10 ^ nat ex" by (simp add: power_int_def)
  then show ?thesis using True by simp
next
  case False
  then have "ex = - int (nat (- ex))" by simp
  then have "(10::rat) powi ex = inverse (10 ^ nat (- ex))"
    by (metis power_int_minus power_int_of_nat)
  then show ?thesis using False by (simp add: divide_inverse)
qed

lemma ParseFloat_nearest:
  assumes rf: "readFloat s = Some (neg, mant, ex, [])" and pf: "ParseFloat s = (v, None)"
  shows "\<bar>f64_decode v - (if neg then - 1 else 1) * (of_nat mant * 10 powi ex)\<bar>
      \<le> \<bar>f64_decode w - (if neg then - 1 else 1) * (of_nat mant * 10 powi ex)\<bar>"
proof (cases "mant = 0")
  case True
  then have "v = (if neg then push_bit 63 1 else 0)" using rf pf by (simp add: ParseFloat_def)
  then have "f64_decode v = 0" by (cases neg) (simp_all only: if_True if_False f64_decode_sign)
  then show ?thesis using True by simp
next
  case False
  define p where "p = (if 0 \<le> ex then mant * 10 ^ nat ex else mant)"
  define q :: nat where "q = (if 0 \<le> ex then 1 else 10 ^ nat (- ex))"
  define x :: rat where "x = of_nat mant * 10 powi ex"
  define b where "b = f64_round p q"
  have ppos: "0 < p" and qpos: "0 < q" using False by (simp_all add: p_def q_def)
  have x: "x = of_nat p / of_nat q" unfolding x_def p_def q_def by (rule decimal_fraction [symmetric])
  have xpos: "0 \<le> x" unfolding x using ppos qpos by simp
  have b': "b = (if 0 \<le> ex then f64_round (mant * 10 ^ nat ex) 1 else f64_round mant (10 ^ nat (- ex)))"
    by (simp add: b_def p_def q_def)
  have pf': "(v, None :: num_error option) =
      (if b \<ge> 2047 * 2 ^ 52 then ((if neg then push_bit 63 1 else 0) OR push_bit 52 2047, Some ErrRange)
       else ((if neg then push_bit 63 1 else 0) OR word_of_nat b, None))"
    using pf rf False unfolding ParseFloat_def b' by (simp add: Let_def)
  then have fin: "b < 2047 * 2 ^ 52" and v: "v = (if neg then push_bit 63 1 else 0) OR word_of_nat b"
    by (simp_all split: if_splits)
  have b63: "b < 2 ^ 63" using fin by simp
  have near: "\<bar>f64_value b - x\<bar> \<le> \<bar>f64_value n - x\<bar>" for n
    unfolding b_def x by (rule f64_round_nearest [OF ppos qpos])
  show ?thesis
  proof (cases neg)
    case True
    then have "f64_decode v = - f64_value b"
      unfolding v by (simp only: if_True f64_decode_sign_or [OF b63])
    then show ?thesis using signed_nearest(2) [OF xpos near, of w] True
      by (simp add: x_def)
  next
    case False
    then have "f64_decode v = f64_value b"
      unfolding v by (simp only: if_False f64_decode_sign_or [OF b63])
    then show ?thesis using signed_nearest(1) [OF xpos near, of w] False
      by (simp add: x_def)
  qed
qed

subsection \<open>When the integer conversions succeed\<close>










subsection \<open>Tokens of the JSON number grammar\<close>

lemma json_number_decompose:
  assumes "json_number tok"
  shows "\<exists>sg ip fp ep. tok = sg @ ip @ fp @ ep \<and> (sg = [] \<or> sg = ''-'') \<and>
           json_int ip \<and> json_frac fp \<and> json_exp ep"
proof -
  define sg where "sg = (if tok \<noteq> [] \<and> hd tok = CHR ''-'' then ''-'' else [])"
  define r1 where "r1 = (if tok \<noteq> [] \<and> hd tok = CHR ''-'' then tl tok else tok)"
  define ip where "ip = takeWhile is_digit r1"
  define r2 where "r2 = dropWhile is_digit r1"
  define fp where "fp = (if r2 \<noteq> [] \<and> hd r2 = CHR ''.'' then CHR ''.'' # takeWhile is_digit (tl r2)
    else [])"
  define ep where "ep = drop (length fp) r2"
  from assms have j: "json_int ip" "json_frac fp" "json_exp ep"
    unfolding json_number_def Let_def ip_def r2_def fp_def ep_def r1_def by simp_all
  have a: "tok = sg @ r1" by (cases tok) (auto simp: sg_def r1_def)
  have b: "r1 = ip @ r2" by (simp add: ip_def r2_def)
  have "take (length fp) r2 = fp"
  proof (cases "r2 \<noteq> [] \<and> hd r2 = CHR ''.''")
    case True
    then obtain t where r2: "r2 = CHR ''.'' # t" by (cases r2) auto
    then have "fp = CHR ''.'' # takeWhile is_digit t" by (simp add: fp_def)
    then show ?thesis using r2 takeWhile_eq_take [of is_digit t] by simp
  next
    case False
    then have "fp = []" by (auto simp: fp_def)
    then show ?thesis by simp
  qed
  then have c: "r2 = fp @ ep" unfolding ep_def by (metis append_take_drop_id)
  have d: "sg = [] \<or> sg = ''-''" by (simp add: sg_def)
  have "tok = sg @ ip @ fp @ ep" using a b c by simp
  with d j show ?thesis by blast
qed

lemma follow_ok_digits: "list_all is_digit ds \<Longrightarrow> follow_ok (ds @ r) = follow_ok r"
  by (induction ds) (auto dest: is_digit_not_sign is_digit_not_point)

lemma exponent_loop_digits:
  "list_all is_digit ds \<Longrightarrow> \<exists>e. exponent_loop (ds @ r) e0 = exponent_loop r e"
  by (induction ds arbitrary: e0) auto

lemma exponent_loop_all_digits:
  "list_all is_digit ds \<Longrightarrow> \<exists>e. exponent_loop ds e0 = (e, [])"
  using exponent_loop_digits [of ds "[]" e0] by simp

text \<open>The fraction and exponent parts, by shape.\<close>

lemma json_frac_cases:
  assumes "json_frac fp"
  obtains "fp = []" | fd where "fp = CHR ''.'' # fd" "list_all is_digit fd" "fd \<noteq> []"
  using assms by (cases fp) (auto simp: json_frac_def)

lemma json_exp_cases:
  assumes "json_exp ep"
  obtains "ep = []"
  | c sg ed where "ep = c # sg @ ed" "c = CHR ''e'' \<or> c = CHR ''E''"
      "sg = [] \<or> sg = ''+'' \<or> sg = ''-''" "list_all is_digit ed" "ed \<noteq> []"
proof (cases ep)
  case Nil
  then show ?thesis using that(1) by simp
next
  case (Cons c r)
  with assms have c: "c = CHR ''e'' \<or> c = CHR ''E''" by (simp add: json_exp_def)
  define ed where "ed = (if r \<noteq> [] \<and> (hd r = CHR ''+'' \<or> hd r = CHR ''-'') then tl r else r)"
  define sg where "sg = (if r \<noteq> [] \<and> (hd r = CHR ''+'' \<or> hd r = CHR ''-'') then [hd r] else [])"
  from assms Cons have ed: "ed \<noteq> []" "list_all is_digit ed"
    by (simp_all add: json_exp_def ed_def Let_def)
  have "r = sg @ ed" by (cases r) (auto simp: sg_def ed_def)
  moreover have "sg = [] \<or> sg = ''+'' \<or> sg = ''-''" by (auto simp: sg_def)
  ultimately show ?thesis using that(2) [of c sg ed] Cons c ed by simp
qed

lemma not_digit_e: "\<not> is_digit (CHR ''e'')" "\<not> is_digit (CHR ''E'')"
  by (simp_all add: is_digit_def)

lemma takeWhile_digits: "list_all is_digit ds \<Longrightarrow> takeWhile is_digit ds = ds"
  by (simp add: list_all_iff)

lemma dropWhile_digits: "list_all is_digit ds \<Longrightarrow> dropWhile is_digit ds = []"
  by (simp add: list_all_iff)

lemma json_value_digits:
  assumes "list_all is_digit ds" and "ds \<noteq> []"
  shows "json_value ds = of_nat (decimal_value ds)"
    and "json_value (CHR ''-'' # ds) = - of_nat (decimal_value ds)"
proof -
  from assms have "is_digit (hd ds)" by (cases ds) auto
  then have h: "hd ds \<noteq> CHR ''-''" by (simp add: is_digit_not_sign)
  note tw = takeWhile_digits [OF assms(1)] and dw = dropWhile_digits [OF assms(1)]
  have "dropWhile (\<lambda>c. c \<noteq> CHR ''e'' \<and> c \<noteq> CHR ''E'') ds = []"
    using assms(1) not_digit_e by (auto simp: list_all_iff)
  then have ex: "json_exponent ds = 0" "json_exponent (CHR ''-'' # ds) = 0"
    by (simp_all add: json_exponent_def)
  show "json_value ds = of_nat (decimal_value ds)"
    using h by (simp add: json_value_def tw dw ex Let_def)
  show "json_value (CHR ''-'' # ds) = - of_nat (decimal_value ds)"
    by (simp add: json_value_def tw dw ex Let_def)
qed

lemma json_exp_number_bytes: "json_exp ep \<Longrightarrow> list_all number_byte ep"
  by (erule json_exp_cases) (auto simp: number_byte_iff list_all_iff)

lemma json_frac_number_bytes: "json_frac fp \<Longrightarrow> list_all number_byte fp"
  by (erule json_frac_cases) (auto simp: number_byte_iff list_all_iff)

lemma json_exp_follow_ok: "json_exp ep \<Longrightarrow> follow_ok ep"
proof (erule json_exp_cases)
  show "ep = [] \<Longrightarrow> follow_ok ep" by simp
next
  fix c sg ed
  assume ep: "ep = c # sg @ ed" and c: "c = CHR ''e'' \<or> c = CHR ''E''"
    and sg: "sg = [] \<or> sg = ''+'' \<or> sg = ''-''" and ed: "list_all is_digit ed" "ed \<noteq> []"
  from ed have h: "is_digit (hd ed)" by (cases ed) auto
  have f: "follow_ok ed" using follow_ok_digits [OF ed(1), of "[]"] by simp
  from sg have "follow_ok (sg @ ed)" using f h ed(2) by auto
  with c show "follow_ok ep" unfolding ep by auto
qed

lemma json_frac_exp_follow_ok:
  assumes "json_frac fp" and "json_exp ep"
  shows "follow_ok (fp @ ep)"
  using assms(1)
proof (cases rule: json_frac_cases)
  case 1
  then show ?thesis using assms(2) by (simp add: json_exp_follow_ok)
next
  case (2 fd)
  then have "is_digit (hd (fd @ ep))" by (cases fd) auto
  moreover have "follow_ok (fd @ ep)"
    using 2 assms(2) by (simp add: follow_ok_digits json_exp_follow_ok)
  ultimately show ?thesis using 2 by simp
qed

lemma json_token_follow_ok:
  assumes "sg = [] \<or> sg = ''-''" and "json_int ip" and "json_frac fp" and "json_exp ep"
  shows "follow_ok (sg @ ip @ fp @ ep)"
proof -
  from assms(2) have d: "list_all is_digit ip" and ne: "ip \<noteq> []"
    using json_int_digits by auto
  then have h: "is_digit (hd (ip @ fp @ ep))" by (cases ip) auto
  have "follow_ok (ip @ fp @ ep)"
    using d assms(3,4) by (simp add: follow_ok_digits json_frac_exp_follow_ok)
  with assms(1) h ne show ?thesis by auto
qed

lemma json_token_number_bytes:
  assumes "sg = [] \<or> sg = ''-''" and "json_int ip" and "json_frac fp" and "json_exp ep"
  shows "list_all number_byte (sg @ ip @ fp @ ep)"
proof -
  from assms(2) have "list_all number_byte ip"
    using json_int_digits digits_number_bytes by auto
  moreover have "list_all number_byte sg" using assms(1) by (auto simp: number_byte_iff)
  ultimately show ?thesis
    using assms(3,4) by (simp add: json_frac_number_bytes json_exp_number_bytes)
qed

lemma json_token_not_leading_zero:
  assumes "sg = [] \<or> sg = ''-''" and "json_int ip" and "json_frac fp" and "json_exp ep"
  shows "\<not> leading_zero (sg @ ip @ fp @ ep)"
proof (cases "sg = []")
  case False
  with assms(1) show ?thesis by (simp add: leading_zero_def)
next
  case True
  show ?thesis
  proof (cases "ip = ''0''")
    case ip: True
    have "isNumberRune (hd (fp @ ep)) AND isFloatOnlyFlag \<noteq> 0" if "fp @ ep \<noteq> []"
    proof (cases "fp = []")
      case True
      with that have "ep \<noteq> []" by simp
      with assms(4) have "hd ep = CHR ''e'' \<or> hd ep = CHR ''E''" by (simp add: json_exp_def)
      with True show ?thesis by (auto simp: floatonly_flag_iff)
    next
      case False
      with assms(3) have "hd fp = CHR ''.''" by (simp add: json_frac_def)
      with False show ?thesis by (simp add: floatonly_flag_iff)
    qed
    then show ?thesis
      unfolding True ip by (cases "fp @ ep") (auto simp: leading_zero_def)
  next
    case False
    with assms(2) have "ip \<noteq> []" and "hd ip \<noteq> CHR ''0''" by (auto simp: json_int_def)
    then have "(ip @ fp @ ep) ! 0 \<noteq> CHR ''0''" by (cases ip) auto
    then show ?thesis unfolding True by (simp add: leading_zero_def)
  qed
qed

lemma json_exp_read_exponent:
  assumes "json_exp ep"
  shows "\<exists>ex. read_exponent neg m k ep = Some (neg, m, ex, [])"
  using assms
proof (cases rule: json_exp_cases)
  case 1
  then show ?thesis by (simp add: read_exponent_def)
next
  case (2 c sg ed)
  then have h: "is_digit (hd ed)" by (cases ed) auto
  from exponent_loop_all_digits [OF 2(4), of 0] obtain e where
    e: "exponent_loop ed 0 = (e, [])" by blast
  from 2(3) show ?thesis
  proof (elim disjE)
    assume "sg = []"
    with 2(1,2,5) h e is_digit_not_sign [OF h] show ?thesis
      by (simp add: read_exponent_def Let_def)
  next
    assume "sg = ''+''"
    with 2(1,2,5) h e show ?thesis by (simp add: read_exponent_def Let_def)
  next
    assume "sg = ''-''"
    with 2(1,2,5) h e show ?thesis by (simp add: read_exponent_def Let_def)
  qed
qed

text \<open>\<^verbatim>\<open>readFloat\<close> reads a JSON number to its end.\<close>

lemma json_token_readFloat:
  assumes "sg = [] \<or> sg = ''-''" and "json_int ip" and "json_frac fp" and "json_exp ep"
  shows "\<exists>m ex. readFloat (sg @ ip @ fp @ ep) = Some (sg = ''-'', m, ex, [])"
proof -
  from assms(2) have d: "list_all is_digit ip" and ne: "ip \<noteq> []"
    using json_int_digits by auto
  then have hd_ip: "is_digit (hd ip)" by (cases ip) auto
  have ml_ep: "\<exists>m k. mantissa_loop ep sd True m0 k0 = (True, m, k, ep)" for sd m0 k0
    using assms(4) by (cases rule: json_exp_cases) (auto simp: not_digit_e)
  have ml_fp: "\<exists>m k. mantissa_loop (fp @ ep) False True m0 0 = (True, m, k, ep)" for m0
    using assms(3)
  proof (cases rule: json_frac_cases)
    case 1
    then show ?thesis using ml_ep by simp
  next
    case (2 fd)
    then show ?thesis using ml_ep by (simp add: mantissa_loop_digits)
  qed
  have "\<exists>m k. mantissa_loop (ip @ fp @ ep) False False 0 0 = (True, m, k, ep)"
    using ml_fp ne by (simp add: mantissa_loop_digits [OF d])
  then obtain m k where ml: "mantissa_loop (ip @ fp @ ep) False False 0 0 = (True, m, k, ep)"
    by blast
  have sgn: "(sg @ ip @ fp @ ep) \<noteq> []" "hd (sg @ ip @ fp @ ep) = CHR ''-'' \<longleftrightarrow> sg = ''-''"
    "(if hd (sg @ ip @ fp @ ep) = CHR ''+'' \<or> hd (sg @ ip @ fp @ ep) = CHR ''-''
      then tl (sg @ ip @ fp @ ep) else sg @ ip @ fp @ ep) = ip @ fp @ ep"
    using assms(1) ne hd_ip is_digit_not_sign [OF hd_ip] by (auto simp: hd_append)
  from json_exp_read_exponent [OF assms(4)] obtain ex where
    "read_exponent (sg = ''-'') m k ep = Some (sg = ''-'', m, ex, [])" by blast
  then have "readFloat (sg @ ip @ fp @ ep) = Some (sg = ''-'', m, ex, [])"
    unfolding readFloat_def using sgn ml by (simp add: Let_def)
  then show ?thesis by blast
qed

lemma json_token_ParseFloat:
  assumes "sg = [] \<or> sg = ''-''" and "json_int ip" and "json_frac fp" and "json_exp ep"
    and "snd (ParseFloat (sg @ ip @ fp @ ep)) \<noteq> Some ErrRange"
  shows "snd (ParseFloat (sg @ ip @ fp @ ep)) = None"
proof -
  from json_token_readFloat [OF assms(1-4)] obtain m ex where
    "readFloat (sg @ ip @ fp @ ep) = Some (sg = ''-'', m, ex, [])" by blast
  with assms(5) show ?thesis
    by (auto simp: ParseFloat_def Let_def split: if_splits)
qed

lemma json_token_float_flags:
  assumes "fp \<noteq> [] \<or> ep \<noteq> []" and "json_frac fp" and "json_exp ep"
  shows "flags_from 0 (sg @ ip @ fp @ ep) AND isFloatOnlyFlag \<noteq> 0"
proof -
  have "\<exists>c \<in> set (fp @ ep). isNumberRune c AND isFloatOnlyFlag \<noteq> 0"
  proof (cases "fp = []")
    case True
    with assms(1,3) have e: "ep \<noteq> []" and "hd ep = CHR ''e'' \<or> hd ep = CHR ''E''"
      by (auto simp: json_exp_def)
    then have "isNumberRune (hd ep) AND isFloatOnlyFlag \<noteq> 0"
      by (auto simp: floatonly_flag_iff)
    moreover have "hd ep \<in> set ep" using e by (rule hd_in_set)
    ultimately show ?thesis by auto
  next
    case False
    with assms(2) have "hd fp = CHR ''.''" by (simp add: json_frac_def)
    then have "isNumberRune (hd fp) AND isFloatOnlyFlag \<noteq> 0"
      by (simp add: floatonly_flag_iff)
    moreover have "hd fp \<in> set fp" using False by (rule hd_in_set)
    ultimately show ?thesis by auto
  qed
  then show ?thesis by (auto simp: flags_from_and)
qed

lemma resolve_float_shaped:
  assumes "flags_from 0 tok AND isFloatOnlyFlag \<noteq> 0"
  shows "resolve K tok = float_stage ParseFloat tok (length tok) (floatTag K)"
  using assms by (simp add: resolve_def integer_stage_def)

lemma float_stage_ok:
  assumes "\<not> leading_zero tok" and "snd (ParseFloat tok) = None"
  shows "float_stage ParseFloat tok (length tok) tag = (tag, fst (ParseFloat tok))"
  using assms by (cases "ParseFloat tok") (auto simp: float_stage_def leading_zero_def)

lemma resolve_long_minus_digits:
  assumes "list_all is_digit ds" and "19 < length ds"
  shows "resolve K (CHR ''-'' # ds) =
    float_stage ParseFloat (CHR ''-'' # ds) (length (CHR ''-'' # ds))
      (floatTag K OR FloatOverflowedInteger K)"
  using assms by (simp add: resolve_def integer_stage_def maxIntLen_def minus_digits_flags)

text \<open>The token \<^verbatim>\<open>1e400\<close>: a JSON number beyond the range of a double.\<close>

lemma exponent_400_range_error: "ParseFloat ''1e400'' = (push_bit 52 2047, Some ErrRange)"
proof -
  have rf: "readFloat ''1e400'' = Some (False, 1, 400, [])"
    by (simp add: readFloat_def read_exponent_def is_digit_def digit_val_def)
  have "(2::nat) ^ 1025 \<le> 1 * 10 ^ nat 400" by simp
  then have "2047 * 2 ^ 52 \<le> f64_round (1 * 10 ^ nat 400) 1" by (rule f64_round_overflow)
  then show ?thesis unfolding ParseFloat_def rf by simp
qed

lemma exponent_400_sentinel: "parseNumber K ''1e400'' = (0, 0)"
  by (simp add: parseNumber_def parseNumber_with_def scan.simps isNumberRune_def flag_defs
      integer_stage_def float_stage_def exponent_400_range_error)

lemma exponent_400_json: "json_number ''1e400''"
  by (simp add: json_number_def json_int_def json_frac_def json_exp_def is_digit_def)

subsection \<open>The value of a JSON number and the float conversion\<close>

text \<open>
  On a JSON number whose exponent is below 100000 in magnitude \<open>readFloat\<close> returns the
  digits and the decimal exponent of \<open>json_value\<close>; from 100000 on the test
  \<^verbatim>\<open>e < 10000\<close> of its exponent loop drops digits.
\<close>

lemma decimal_value_append:
  "decimal_value (a @ b) = decimal_value a * 10 ^ length b + decimal_value b"
  using foldl_decimal [of "decimal_value a" b] by (simp add: decimal_value_def)

lemma exponent_loop_small:
  assumes "list_all is_digit ds" and "e0 * 10 ^ length ds + decimal_value ds < 100000"
  shows "exponent_loop ds e0 = (e0 * 10 ^ length ds + decimal_value ds, [])"
  using assms
proof (induction ds arbitrary: e0)
  case Nil
  show ?case by simp
next
  case (Cons c cs)
  have c: "is_digit c" and cs: "list_all is_digit cs" using Cons.prems(1) by simp_all
  have tot: "e0 * 10 ^ length (c # cs) + decimal_value (c # cs) =
      (e0 * 10 + digit_val c) * 10 ^ length cs + decimal_value cs"
    by (simp add: decimal_value_Cons algebra_simps)
  have "e0 * 10 * 1 \<le> e0 * 10 * 10 ^ length cs" by (intro mult_left_mono) simp_all
  also have "\<dots> \<le> e0 * 10 ^ length (c # cs) + decimal_value (c # cs)" by simp
  also have "\<dots> < 100000" by (rule Cons.prems(2))
  finally have e0: "e0 < 10000" by simp
  have "(e0 * 10 + digit_val c) * 10 ^ length cs + decimal_value cs < 100000"
    using Cons.prems(2) unfolding tot .
  from Cons.IH [OF cs this] show ?case using c e0 unfolding tot by simp
qed

lemma takeWhile_stop:
  assumes "list_all P xs" and "ys = [] \<or> \<not> P (hd ys)"
  shows "takeWhile P (xs @ ys) = xs" and "dropWhile P (xs @ ys) = ys"
proof -
  have a: "\<And>x. x \<in> set xs \<Longrightarrow> P x" using assms(1) by (simp add: list_all_iff)
  have "takeWhile P ys = []" and "dropWhile P ys = ys" using assms(2) by (cases ys; auto)+
  then show "takeWhile P (xs @ ys) = xs" and "dropWhile P (xs @ ys) = ys"
    using a by (simp_all add: takeWhile_append2 dropWhile_append2)
qed

lemma json_exponent_shapes:
  assumes "c = CHR ''e'' \<or> c = CHR ''E''" and "list_all is_digit ed" and "ed \<noteq> []"
  shows "json_exponent (c # ed) = int (decimal_value ed)"
    and "json_exponent (c # CHR ''+'' # ed) = int (decimal_value ed)"
    and "json_exponent (c # CHR ''-'' # ed) = - int (decimal_value ed)"
proof -
  from assms(2,3) have "is_digit (hd ed)" by (cases ed) auto
  then have "hd ed \<noteq> CHR ''-''" "hd ed \<noteq> CHR ''+''" by (simp_all add: is_digit_not_sign)
  then show "json_exponent (c # ed) = int (decimal_value ed)"
    and "json_exponent (c # CHR ''+'' # ed) = int (decimal_value ed)"
    and "json_exponent (c # CHR ''-'' # ed) = - int (decimal_value ed)"
    using assms(1) by (auto simp: json_exponent_def)
qed

lemma json_exp_read_exponent_value:
  assumes "json_exp ep" and "\<bar>json_exponent ep\<bar> < 100000"
  shows "read_exponent neg m k ep = Some (neg, m, json_exponent ep - int k, [])"
  using assms(1)
proof (cases rule: json_exp_cases)
  case 1
  then show ?thesis by (simp add: read_exponent_def json_exponent_def)
next
  case (2 c sg ed)
  then have h: "is_digit (hd ed)" by (cases ed) auto
  note sh = json_exponent_shapes [OF 2(2,4,5)]
  have "int (decimal_value ed) < 100000"
    using assms(2) 2(3) unfolding 2(1) by (elim disjE) (simp_all add: sh)
  then have "0 * 10 ^ length ed + decimal_value ed < 100000" by simp
  from exponent_loop_small [OF 2(4) this]
  have e: "exponent_loop ed 0 = (decimal_value ed, [])" by simp
  from 2(3) show ?thesis
  proof (elim disjE)
    assume "sg = []"
    with 2(1,2,5) h e is_digit_not_sign [OF h] show ?thesis
      by (simp add: read_exponent_def Let_def sh)
  next
    assume "sg = ''+''"
    with 2(1,2,5) h e show ?thesis by (simp add: read_exponent_def Let_def sh)
  next
    assume "sg = ''-''"
    with 2(1,2,5) h e show ?thesis by (simp add: read_exponent_def Let_def sh)
  qed
qed

lemma json_exp_stop:
  assumes "json_exp ep"
  shows "ep = [] \<or> \<not> is_digit (hd ep)"
    and "ep = [] \<or> \<not> (hd ep \<noteq> CHR ''e'' \<and> hd ep \<noteq> CHR ''E'')"
    and "ep = [] \<or> hd ep \<noteq> CHR ''.''"
  using assms by (cases rule: json_exp_cases; auto simp: not_digit_e)+

lemma digit_not_e: "is_digit c \<Longrightarrow> c \<noteq> CHR ''e'' \<and> c \<noteq> CHR ''E''"
  using not_digit_e by auto

lemma json_exponent_token:
  assumes "sg = [] \<or> sg = ''-''" and "json_int ip" and "json_frac fp" and "json_exp ep"
  shows "json_exponent (sg @ ip @ fp @ ep) = json_exponent ep"
proof -
  let ?P = "\<lambda>c. c \<noteq> CHR ''e'' \<and> c \<noteq> CHR ''E''"
  have "list_all ?P sg" using assms(1) by auto
  moreover have "list_all ?P ip"
    using json_int_digits [OF assms(2)] digit_not_e by (auto simp: list_all_iff)
  moreover have "list_all ?P fp"
    using assms(3) digit_not_e by (cases rule: json_frac_cases) (auto simp: list_all_iff)
  ultimately have "list_all ?P (sg @ ip @ fp)" by simp
  from takeWhile_stop(2) [OF this json_exp_stop(2) [OF assms(4)]]
  have a: "dropWhile ?P (sg @ ip @ fp @ ep) = ep" by simp
  have b: "dropWhile ?P ep = ep"
    using json_exp_stop(2) [OF assms(4)] by (cases ep) auto
  show ?thesis unfolding json_exponent_def a b ..
qed

lemma json_value_token:
  assumes "sg = [] \<or> sg = ''-''" and "json_int ip" and "json_frac fp" and "json_exp ep"
  shows "json_value (sg @ ip @ fp @ ep) =
    (if sg = ''-'' then - 1 else 1) * of_nat (decimal_value (ip @ tl fp)) *
      10 powi (json_exponent (sg @ ip @ fp @ ep) - int (length (tl fp)))"
proof -
  let ?tok = "sg @ ip @ fp @ ep"
  from assms(2) have d: "list_all is_digit ip" and ne: "ip \<noteq> []"
    using json_int_digits by auto
  then have hd_ip: "is_digit (hd ip)" by (cases ip) auto
  have neg: "(?tok \<noteq> [] \<and> hd ?tok = CHR ''-'') \<longleftrightarrow> sg = ''-''"
    using assms(1) ne is_digit_not_sign [OF hd_ip] by (auto simp: hd_append)
  have r1: "(if sg = ''-'' then tl ?tok else ?tok) = ip @ fp @ ep"
    using assms(1) by auto
  have stop: "fp @ ep = [] \<or> \<not> is_digit (hd (fp @ ep))"
    using assms(3)
  proof (cases rule: json_frac_cases)
    case 1
    then show ?thesis using json_exp_stop(1) [OF assms(4)] by simp
  next
    case (2 fd)
    then show ?thesis by (simp add: is_digit_def)
  qed
  have tw: "takeWhile is_digit (ip @ fp @ ep) = ip" and dw: "dropWhile is_digit (ip @ fp @ ep) = fp @ ep"
    using takeWhile_stop [OF d stop] by simp_all
  have fd: "(if fp @ ep \<noteq> [] \<and> hd (fp @ ep) = CHR ''.'' then takeWhile is_digit (tl (fp @ ep)) else [])
      = tl fp"
    using assms(3)
  proof (cases rule: json_frac_cases)
    case 1
    then show ?thesis using json_exp_stop(3) [OF assms(4)] by auto
  next
    case (2 fd)
    then show ?thesis
      using takeWhile_stop(1) [OF 2(2) json_exp_stop(1) [OF assms(4)]] by simp
  qed
  show ?thesis
    unfolding json_value_def Let_def neg r1 tw dw fd ..
qed

lemma json_token_readFloat_value:
  assumes "sg = [] \<or> sg = ''-''" and "json_int ip" and "json_frac fp" and "json_exp ep"
    and "\<bar>json_exponent (sg @ ip @ fp @ ep)\<bar> < 100000"
  shows "readFloat (sg @ ip @ fp @ ep) =
    Some (sg = ''-'', decimal_value (ip @ tl fp),
      json_exponent (sg @ ip @ fp @ ep) - int (length (tl fp)), [])"
proof -
  from assms(2) have d: "list_all is_digit ip" and ne: "ip \<noteq> []"
    using json_int_digits by auto
  then have hd_ip: "is_digit (hd ip)" by (cases ip) auto
  have ml_ep: "mantissa_loop ep sd True m0 k0 = (True, m0, k0, ep)" for sd m0 k0
    using assms(4) by (cases rule: json_exp_cases) (auto simp: not_digit_e)
  have ml_fp: "mantissa_loop (fp @ ep) False True m0 0 =
      (True, m0 * 10 ^ length (tl fp) + decimal_value (tl fp), length (tl fp), ep)" for m0
    using assms(3)
  proof (cases rule: json_frac_cases)
    case 1
    then show ?thesis using ml_ep by simp
  next
    case (2 fd)
    then show ?thesis using ml_ep by (simp add: mantissa_loop_digits)
  qed
  have ml: "mantissa_loop (ip @ fp @ ep) False False 0 0 =
      (True, decimal_value (ip @ tl fp), length (tl fp), ep)"
    using ml_fp ne by (simp add: mantissa_loop_digits [OF d] decimal_value_append)
  have sgn: "(sg @ ip @ fp @ ep) \<noteq> []" "hd (sg @ ip @ fp @ ep) = CHR ''-'' \<longleftrightarrow> sg = ''-''"
    "(if hd (sg @ ip @ fp @ ep) = CHR ''+'' \<or> hd (sg @ ip @ fp @ ep) = CHR ''-''
      then tl (sg @ ip @ fp @ ep) else sg @ ip @ fp @ ep) = ip @ fp @ ep"
    using assms(1) ne hd_ip is_digit_not_sign [OF hd_ip] by (auto simp: hd_append)
  note je = json_exponent_token [OF assms(1-4)]
  have "read_exponent (sg = ''-'') (decimal_value (ip @ tl fp)) (length (tl fp)) ep =
      Some (sg = ''-'', decimal_value (ip @ tl fp), json_exponent ep - int (length (tl fp)), [])"
    using assms(5) unfolding je by (intro json_exp_read_exponent_value assms(4))
  then show ?thesis
    unfolding readFloat_def je using sgn ml by (simp add: Let_def)
qed

lemma ParseFloat_finite:
  assumes "ParseFloat s = (v, None)"
  shows "f64_finite v"
proof -
  from assms obtain neg mant ex where rf: "readFloat s = Some (neg, mant, ex, [])"
    by (auto simp: ParseFloat_def split: option.splits prod.splits if_splits)
  show ?thesis
  proof (cases "mant = 0")
    case True
    then have "v = (if neg then push_bit 63 1 else 0)" using rf assms by (simp add: ParseFloat_def)
    then show ?thesis by (cases neg) (simp_all add: f64_finite_def)
  next
    case False
    define b where "b = (if 0 \<le> ex then f64_round (mant * 10 ^ nat ex) 1
      else f64_round mant (10 ^ nat (- ex)))"
    have "(v, None :: num_error option) =
      (if b \<ge> 2047 * 2 ^ 52 then ((if neg then push_bit 63 1 else 0) OR push_bit 52 2047, Some ErrRange)
       else ((if neg then push_bit 63 1 else 0) OR word_of_nat b, None))"
      using assms rf False unfolding ParseFloat_def b_def by (simp add: Let_def)
    then have fin: "b < 2047 * 2 ^ 52" and v: "v = (if neg then push_bit 63 1 else 0) OR word_of_nat b"
      by (simp_all split: if_splits)
    have b63: "b < 2 ^ 63" using fin by simp
    have "unat v mod 2 ^ 63 = b"
      unfolding v using b63 by (cases neg) (simp_all only: if_True if_False unat_sign_or [OF b63] mod_less mod_add_self1)
    then show ?thesis using fin by (simp add: f64_finite_def)
  qed
qed

lemma json_token_nearest:
  assumes "sg = [] \<or> sg = ''-''" and "json_int ip" and "json_frac fp" and "json_exp ep"
    and "\<bar>json_exponent (sg @ ip @ fp @ ep)\<bar> < 100000"
    and "ParseFloat (sg @ ip @ fp @ ep) = (v, None)"
  shows "\<bar>f64_decode v - json_value (sg @ ip @ fp @ ep)\<bar>
      \<le> \<bar>f64_decode w - json_value (sg @ ip @ fp @ ep)\<bar>"
  using ParseFloat_nearest [OF json_token_readFloat_value [OF assms(1-5)] assms(6), of w]
  unfolding json_value_token [OF assms(1-4)]
  by (cases "sg = ''-''") (simp_all add: mult.assoc)

subsection \<open>The tokens that are not answered with the sentinel\<close>










section \<open>The claims\<close>

subsection \<open>C7: the delimiter stops the scan\<close>

text \<open>
  C7. Scanning \<^verbatim>\<open>"123,"\<close> accepts exactly 3 bytes: the comma, an EndOfValue byte,
  stops the loop and is not part of the token \<^verbatim>\<open>buf[:3] = "123"\<close>. \<open>parseNumber\<close>
  returns the Integer tag with the value 123, and the same pair for \<^verbatim>\<open>"123"\<close>, where
  the loop ends with the buffer.
\<close>

theorem delimiter_stops_scan:
  "scan ''123,'' 0 0 0 = Scanned 3 (isPartOfNumberFlag OR isDigitFlag) \<and>
   take 3 ''123,'' = ''123'' \<and>
   parseNumber K ''123,'' = (integerTag K, 123) \<and>
   parseNumber K ''123'' = parseNumber K ''123,''"
  by (simp add: eval_defs)

subsection \<open>C8: a byte without flags rejects the whole buffer\<close>

text \<open>
  C8. If the buffer holds a byte whose table entry is 0 and no EndOfValue byte comes
  before it, the scan aborts and \<open>parseNumber\<close> returns \<open>(0, 0)\<close>, whatever the bytes
  before it are. (The entry is 0 exactly for the bytes outside the digits,
  \<^verbatim>\<open>+ - . e E\<close> and the delimiters, \<open>empty_flags_iff\<close>; this includes all bytes
  from 128 on, \<open>non_ascii_empty\<close>.)
\<close>

theorem unclassified_byte_rejects:
  assumes "i < length buf" and "isNumberRune (buf ! i) = 0"
    and "\<forall>c \<in> set (take i buf). isNumberRune c \<noteq> isEOVFlag"
  shows "scan buf 0 0 0 = Aborted \<and> parseNumber K buf = (0, 0)"
proof -
  have "scan buf 0 0 0 = Aborted"
    using assms no_eov_before [of i buf] by (intro scan_abort [of i]) (simp_all add: bad_at_def)
  then show ?thesis by (simp add: parseNumber_def parseNumber_with_def)
qed

text \<open>The buffer \<^verbatim>\<open>"123x"\<close>: the prefix \<^verbatim>\<open>"123"\<close> is a number, the \<^verbatim>\<open>x\<close> rejects it.\<close>

theorem unclassified_byte_rejects_witness:
  "3 < length ''123x'' \<and> isNumberRune (''123x'' ! 3) = 0 \<and>
   list_all (\<lambda>c. isNumberRune c \<noteq> isEOVFlag) (take 3 ''123x'') \<and>
   scan ''123x'' 0 0 0 = Aborted \<and> parseNumber simdjson_consts ''123x'' = (0, 0)"
proof -
  have h1: "3 < length ''123x''" by simp
  have h2: "isNumberRune (''123x'' ! 3) = 0" by (simp add: isNumberRune_def)
  have h3: "\<forall>c \<in> set (take 3 ''123x''). isNumberRune c \<noteq> isEOVFlag"
    by (simp add: isNumberRune_def flag_defs)
  from unclassified_byte_rejects [OF h1 h2 h3] h1 h2 h3 show ?thesis
    by (simp add: list_all_iff)
qed

subsection \<open>C9: a leading plus sign is accepted\<close>

text \<open>
  C9. The table gives \<^verbatim>\<open>+\<close> the flag \<^verbatim>\<open>isPartOfNumberFlag\<close> alone, without
  \<^verbatim>\<open>isMustHaveDigitNext\<close>; \<^verbatim>\<open>ParseInt\<close> accepts a leading plus sign; so
  \<open>parseNumber\<close> returns the Integer tag with the value 5 for \<^verbatim>\<open>"+5"\<close>, which is not
  a JSON number.
\<close>

theorem leading_plus_accepted:
  "isNumberRune CHR ''+'' = isPartOfNumberFlag \<and>
   isNumberRune CHR ''+'' AND isMustHaveDigitNext = 0 \<and>
   ParseInt ''+5'' = (5, None) \<and>
   parseNumber K ''+5'' = (integerTag K, 5) \<and>
   \<not> json_number ''+5''"
  by (simp add: eval_defs json_number_def json_int_def)

subsection \<open>C10: nothing scanned\<close>

text \<open>
  C10. For the empty buffer and for a buffer that starts with an EndOfValue byte the
  loop accepts no byte (\<^verbatim>\<open>pos = 0\<close>) and \<open>parseNumber\<close> returns \<open>(0, 0)\<close>. The result
  does not depend on the conversion functions: none of them is called.
\<close>

theorem nothing_scanned_is_sentinel:
  assumes "buf = [] \<or> isNumberRune (hd buf) = isEOVFlag"
  shows "scan buf 0 0 0 = Scanned 0 0 \<and>
         parseNumber_with pInt pUint pFloat K buf = (0, 0) \<and>
         parseNumber K buf = (0, 0)"
proof -
  have "scan buf 0 0 0 = Scanned 0 0"
  proof (cases buf)
    case Nil
    then show ?thesis by (simp add: scan_end)
  next
    case (Cons c cs)
    with assms have "isNumberRune c = isEOVFlag" by simp
    then show ?thesis using Cons by (simp add: scan_step isEOVFlag_def)
  qed
  then show ?thesis by (simp add: parseNumber_def parseNumber_with_def)
qed

theorem nothing_scanned_is_sentinel_witness:
  "isNumberRune (hd '',7'') = isEOVFlag \<and>
   scan '',7'' 0 0 0 = Scanned 0 0 \<and>
   parseNumber_with ParseInt ParseUint ParseFloat simdjson_consts '',7'' = (0, 0) \<and>
   parseNumber simdjson_consts '',7'' = (0, 0)"
proof -
  have h: "isNumberRune (hd '',7'') = isEOVFlag" by (simp add: isNumberRune_def)
  then have "'',7'' = [] \<or> isNumberRune (hd '',7'') = isEOVFlag" ..
  from nothing_scanned_is_sentinel [OF this] h show ?thesis by simp
qed

subsection \<open>C3: integers are exact\<close>

text \<open>
  C3 as stated covers every string of digits with an optional minus sign. It fails on
  a leading zero: \<^verbatim>\<open>"01"\<close> is such a string, its value 1 is within the signed range,
  and \<open>parseNumber\<close> returns \<open>(0, 0)\<close> (line 95, ``Integers cannot have a leading
  zero'').
\<close>

theorem leading_zero_integer_counterexample:
  "list_all is_digit ''01'' \<and> decimal_value ''01'' = 1 \<and>
   parseNumber simdjson_consts ''01'' = (0, 0) \<and>
   parseNumber simdjson_consts ''01'' \<noteq> (integerTag simdjson_consts, 1)"
  by (simp add: eval_defs decimal_value_def integerTag_def simdjson_consts_def)

text \<open>
  C3, amended: the digits \<open>ds\<close> have no leading zero (\<open>json_int\<close>: the single digit 0, or
  digits that do not start with 0), and the literal ends with the buffer or before an
  EndOfValue byte. If the value is at most \<open>2 ^ 63 - 1\<close>, \<open>parseNumber\<close> returns the
  Integer tag and the two's complement word of the value, with and without a minus sign.
  If the value is above \<open>2 ^ 63 - 1\<close> and at most \<open>2 ^ 64 - 1\<close> and there is no minus
  sign, it returns the Uint tag and the unsigned word of the value.
\<close>

theorem integer_literal_exact:
  assumes "json_int ds" and "rest = [] \<or> isNumberRune (hd rest) = isEOVFlag"
  shows
    "(decimal_value ds \<le> 2 ^ 63 - 1 \<longrightarrow>
        parseNumber K (ds @ rest) = (integerTag K, word_of_int (int (decimal_value ds))) \<and>
        sint (word_of_int (int (decimal_value ds)) :: u64) = int (decimal_value ds)) \<and>
     (decimal_value ds \<le> 2 ^ 63 - 1 \<longrightarrow>
        parseNumber K (CHR ''-'' # ds @ rest) =
          (integerTag K, word_of_int (- int (decimal_value ds))) \<and>
        sint (word_of_int (- int (decimal_value ds)) :: u64) = - int (decimal_value ds)) \<and>
     (2 ^ 63 - 1 < decimal_value ds \<and> decimal_value ds \<le> 2 ^ 64 - 1 \<longrightarrow>
        parseNumber K (ds @ rest) = (uintTag K, word_of_nat (decimal_value ds)) \<and>
        unat (word_of_nat (decimal_value ds) :: u64) = decimal_value ds)"
proof -
  let ?v = "decimal_value ds"
  from assms(1) have dig: "list_all is_digit ds" and ne: "ds \<noteq> []"
    using json_int_digits by auto
  have tok: "parseNumber K (ds @ rest) = resolve K ds"
    using dig ne assms(2) by (intro parseNumber_token digits_number_bytes digits_follow_ok)
  have mtok: "parseNumber K (CHR ''-'' # ds @ rest) = resolve K (CHR ''-'' # ds)"
  proof -
    from dig ne have "is_digit (hd ds)" by (cases ds) auto
    with dig ne have "list_all number_byte (CHR ''-'' # ds)" and "follow_ok (CHR ''-'' # ds)"
      using digits_number_bytes [OF dig] digits_follow_ok [OF dig]
      by (simp_all add: number_byte_iff)
    from parseNumber_token [OF this _ assms(2)] show ?thesis by simp
  qed
  have small: "?v \<le> 2 ^ 64 - 1 \<Longrightarrow> length ds \<le> 20"
    by (intro json_int_length [OF assms(1)]) simp_all
  have small': "?v \<le> 2 ^ 63 - 1 \<Longrightarrow> length ds \<le> 19"
    by (intro json_int_length [OF assms(1)]) simp_all
  have pos: "?v \<le> 2 ^ 63 - 1 \<Longrightarrow>
      parseNumber K (ds @ rest) = (integerTag K, word_of_int (int ?v)) \<and>
      sint (word_of_int (int ?v) :: u64) = int ?v"
  proof -
    assume a: "?v \<le> 2 ^ 63 - 1"
    then have "parseNumber K (ds @ rest) = (integerTag K, word_of_int (int ?v))"
      using small by (simp add: tok resolve_digits [OF assms(1)])
    moreover have "sint (word_of_int (int ?v) :: u64) = int ?v"
      by (rule sint_word_of_int_u64) (use a in simp_all)
    ultimately show ?thesis by simp
  qed
  have neg: "?v \<le> 2 ^ 63 - 1 \<Longrightarrow>
      parseNumber K (CHR ''-'' # ds @ rest) = (integerTag K, word_of_int (- int ?v)) \<and>
      sint (word_of_int (- int ?v) :: u64) = - int ?v"
  proof -
    assume a: "?v \<le> 2 ^ 63 - 1"
    then have "parseNumber K (CHR ''-'' # ds @ rest) = (integerTag K, word_of_int (- int ?v))"
      using small' by (simp add: mtok resolve_minus_digits [OF assms(1)])
    moreover have "sint (word_of_int (- int ?v) :: u64) = - int ?v"
      by (rule sint_word_of_int_u64) (use a in simp_all)
    ultimately show ?thesis by simp
  qed
  have uns: "2 ^ 63 - 1 < ?v \<and> ?v \<le> 2 ^ 64 - 1 \<Longrightarrow>
      parseNumber K (ds @ rest) = (uintTag K, word_of_nat ?v) \<and>
      unat (word_of_nat ?v :: u64) = ?v"
  proof -
    assume a: "2 ^ 63 - 1 < ?v \<and> ?v \<le> 2 ^ 64 - 1"
    then have "parseNumber K (ds @ rest) = (uintTag K, word_of_nat ?v)"
      using small by (simp add: tok resolve_digits [OF assms(1)] maxUint64_def)
    moreover have "unat (word_of_nat ?v :: u64) = ?v"
      using a by (simp add: unat_of_nat)
    ultimately show ?thesis by simp
  qed
  from pos neg uns show ?thesis by blast
qed

text \<open>The literals 42 and -42 before a comma, and the largest unsigned value.\<close>

theorem integer_literal_exact_witness:
  "parseNumber simdjson_consts ''42,'' = (integerTag simdjson_consts, 42) \<and>
   parseNumber simdjson_consts ''-42,'' = (integerTag simdjson_consts, - 42) \<and>
   parseNumber simdjson_consts ''18446744073709551615'' =
     (uintTag simdjson_consts, 18446744073709551615)"
proof -
  have j1: "json_int ''42''" and j2: "json_int ''18446744073709551615''"
    by (simp_all add: json_int_def is_digit_def)
  have r1: "'','' = [] \<or> isNumberRune (hd '','') = isEOVFlag"
    by (simp add: isNumberRune_def)
  have r2: "[] = [] \<or> isNumberRune (hd []) = isEOVFlag" by simp
  have v1: "decimal_value ''42'' = 42"
    and v2: "decimal_value ''18446744073709551615'' = 18446744073709551615"
    by (simp_all add: decimal_value_def digit_val_def)
  from integer_literal_exact [OF j1 r1, of simdjson_consts]
    integer_literal_exact [OF j2 r2, of simdjson_consts]
  show ?thesis by (simp add: v1 v2)
qed

subsection \<open>C5: leading zeros\<close>

text \<open>
  The seven inputs of C5 behave as it says: \<^verbatim>\<open>"01"\<close>, \<^verbatim>\<open>"-00"\<close> and \<^verbatim>\<open>"00.5"\<close>
  give \<open>(0, 0)\<close>; \<^verbatim>\<open>"0"\<close> and \<^verbatim>\<open>"-0"\<close> give the Integer tag, \<^verbatim>\<open>"0.5"\<close> and
  \<^verbatim>\<open>"0e5"\<close> the Float tag.
\<close>

lemma leading_zero_examples:
  "parseNumber K ''01'' = (0, 0) \<and> parseNumber K ''-00'' = (0, 0) \<and>
   parseNumber K ''00.5'' = (0, 0) \<and>
   parseNumber K ''0'' = (integerTag K, 0) \<and> parseNumber K ''-0'' = (integerTag K, 0) \<and>
   parseNumber K ''0.5'' = (floatTag K, 0x3FE0000000000000) \<and>
   parseNumber K ''0e5'' = (floatTag K, 0)"
  by (simp add: eval_defs f64_round_def ilog2_ratio_def rne_def compute_floorlog)

text \<open>
  C5. Its rule for a minus sign, ``an integer-shaped token with minus and extent > 2
  may not have 0 after the minus'', is checked by the code only inside the branch
  \<^verbatim>\<open>pos <= maxIntLen\<close>; the check before \<^verbatim>\<open>ParseFloat\<close> looks at \<^verbatim>\<open>buf[0]\<close> alone.
  A minus sign followed by 22 zeros has extent 23, skips the integer branch, passes the
  float check and is parsed by \<^verbatim>\<open>ParseFloat\<close> as the float -0 with the
  OverflowedInteger flag.
\<close>

theorem long_minus_zero_accepted:
  "length ''-0000000000000000000000'' = 23 \<and>
   scan ''-0000000000000000000000'' 0 0 0 =
     Scanned 23 (isPartOfNumberFlag OR isMinusFlag OR isMustHaveDigitNext OR isDigitFlag) \<and>
   parseNumber K ''-0000000000000000000000'' =
     (floatTag K OR FloatOverflowedInteger K, push_bit 63 1) \<and>
   parseNumber K ''-0000000000000000000000'' \<noteq> (0, 0)"
  by (simp add: eval_defs)

subsection \<open>C6: a sign or point without a digit\<close>

text \<open>
  C6 as stated speaks of every buffer in which some \<^verbatim>\<open>.\<close> or \<^verbatim>\<open>-\<close> is not followed
  by a digit. The loop stops at the first EndOfValue byte and never looks at the
  bytes after it: in \<^verbatim>\<open>"1,-"\<close> the minus sign is the last byte, and the result is
  the integer 1.
\<close>

theorem dangling_sign_after_delimiter_counterexample:
  "2 < length ''1,-'' \<and> ''1,-'' ! 2 = CHR ''-'' \<and> length ''1,-'' < 2 + 2 \<and>
   parseNumber simdjson_consts ''1,-'' = (integerTag simdjson_consts, 1) \<and>
   parseNumber simdjson_consts ''1,-'' \<noteq> (0, 0)"
  by (simp add: eval_defs)

text \<open>
  C6, amended: the five inputs give \<open>(0, 0)\<close>; and whenever a \<^verbatim>\<open>.\<close> or \<^verbatim>\<open>-\<close> at
  index \<open>i\<close>, with no EndOfValue byte before it, is the last byte of the buffer or is
  followed by a byte without the Digit flag, the scan aborts and \<open>parseNumber\<close> returns
  \<open>(0, 0)\<close>.
\<close>

theorem dangling_sign_or_point:
  "parseNumber K ''-'' = (0, 0) \<and> parseNumber K ''.'' = (0, 0) \<and>
   parseNumber K ''1.'' = (0, 0) \<and> parseNumber K ''-.5'' = (0, 0) \<and>
   parseNumber K ''1e'' = (0, 0) \<and>
   (i < length buf \<and> (buf ! i = CHR ''.'' \<or> buf ! i = CHR ''-'') \<and>
    (length buf < i + 2 \<or> isNumberRune (buf ! (i + 1)) AND isDigitFlag = 0) \<and>
    (\<forall>c \<in> set (take i buf). isNumberRune c \<noteq> isEOVFlag)
    \<longrightarrow> scan buf 0 0 0 = Aborted \<and> parseNumber K buf = (0, 0))"
proof -
  have ex: "parseNumber K ''-'' = (0, 0) \<and> parseNumber K ''.'' = (0, 0) \<and>
      parseNumber K ''1.'' = (0, 0) \<and> parseNumber K ''-.5'' = (0, 0) \<and>
      parseNumber K ''1e'' = (0, 0)"
    by (simp add: eval_defs)
  have gen: "scan buf 0 0 0 = Aborted \<and> parseNumber K buf = (0, 0)"
    if a: "i < length buf" "buf ! i = CHR ''.'' \<or> buf ! i = CHR ''-''"
      "length buf < i + 2 \<or> isNumberRune (buf ! (i + 1)) AND isDigitFlag = 0"
      "\<forall>c \<in> set (take i buf). isNumberRune c \<noteq> isEOVFlag"
  proof -
    from a(2) have "isNumberRune (buf ! i) AND isMustHaveDigitNext > 0"
      by (simp add: must_digit_flag_iff)
    with a(3) have "bad_at buf i" by (simp add: bad_at_def)
    then have "scan buf 0 0 0 = Aborted"
      using a(1,4) no_eov_before [of i buf] by (intro scan_abort [of i]) simp_all
    then show ?thesis by (simp add: parseNumber_def parseNumber_with_def)
  qed
  from ex gen show ?thesis by blast
qed

text \<open>The buffer \<^verbatim>\<open>"1.,"\<close>: the point at index 1 is followed by a comma.\<close>

theorem dangling_sign_or_point_witness:
  "1 < length ''1.,'' \<and> ''1.,'' ! 1 = CHR ''.'' \<and>
   isNumberRune (''1.,'' ! (1 + 1)) AND isDigitFlag = 0 \<and>
   list_all (\<lambda>c. isNumberRune c \<noteq> isEOVFlag) (take 1 ''1.,'') \<and>
   scan ''1.,'' 0 0 0 = Aborted \<and> parseNumber simdjson_consts ''1.,'' = (0, 0)"
proof -
  have h: "1 < length ''1.,'' \<and> (''1.,'' ! 1 = CHR ''.'' \<or> ''1.,'' ! 1 = CHR ''-'') \<and>
    (length ''1.,'' < 1 + 2 \<or> isNumberRune (''1.,'' ! (1 + 1)) AND isDigitFlag = 0) \<and>
    (\<forall>c \<in> set (take 1 ''1.,''). isNumberRune c \<noteq> isEOVFlag)"
    by (simp add: isNumberRune_def flag_defs)
  from dangling_sign_or_point [of simdjson_consts 1 "''1.,''"] h
  have "scan ''1.,'' 0 0 0 = Aborted \<and> parseNumber simdjson_consts ''1.,'' = (0, 0)"
    by blast
  with h show ?thesis by (simp add: list_all_iff isNumberRune_def flag_defs)
qed

subsection \<open>C4: integers beyond the unsigned range\<close>

text \<open>
  C4 as stated covers every digit string without a leading zero whose value exceeds
  \<^verbatim>\<open>u64::MAX\<close>. The digit 1 followed by 309 zeros is one; \<^verbatim>\<open>ParseFloat\<close> answers it
  with an infinity and \<^verbatim>\<open>ErrRange\<close>, and line 134 returns \<open>(0, 0)\<close>.
\<close>

theorem huge_integer_counterexample:
  "list_all is_digit (CHR ''1'' # replicate 309 (CHR ''0'')) \<and>
   decimal_value (CHR ''1'' # replicate 309 (CHR ''0'')) = 10 ^ 309 \<and>
   parseNumber simdjson_consts (CHR ''1'' # replicate 309 (CHR ''0'')) = (0, 0)"
proof -
  have "(2::nat) ^ 1025 \<le> 10 ^ 309" and "20 < (309::nat)" by simp_all
  then show ?thesis
    by (intro conjI one_and_zeros_digits one_and_zeros_value one_and_zeros_overflow)
qed

text \<open>
  C4, amended: for digits without a leading zero whose value exceeds \<^verbatim>\<open>u64::MAX\<close> and
  rounds to a finite double (\<^verbatim>\<open>ParseFloat\<close> reports no range error), followed by the
  end of the buffer or an EndOfValue byte, \<open>parseNumber\<close> returns the Float tag with the
  OverflowedInteger flag and the bits that \<^verbatim>\<open>ParseFloat\<close> returns, whether the token
  has at most 20 bytes or more. These bits are a finite double, and no finite double is
  nearer to the value of the digits.
\<close>

theorem integer_overflow_is_float:
  assumes "list_all is_digit ds" and "ds \<noteq> []" and "hd ds \<noteq> CHR ''0''"
    and "2 ^ 64 - 1 < decimal_value ds"
    and "f64_round (decimal_value ds) 1 < 2047 * 2 ^ 52"
    and "rest = [] \<or> isNumberRune (hd rest) = isEOVFlag"
  shows "\<exists>v. parseNumber K (ds @ rest) = (floatTag K OR FloatOverflowedInteger K, v) \<and>
    ParseFloat ds = (v, None) \<and>
    v = word_of_nat (f64_round (decimal_value ds) 1) \<and>
    f64_finite v \<and>
    (\<forall>w. f64_finite w \<longrightarrow>
       \<bar>f64_decode v - of_nat (decimal_value ds)\<bar> \<le> \<bar>f64_decode w - of_nat (decimal_value ds)\<bar>)"
proof -
  define v :: u64 where "v = word_of_nat (f64_round (decimal_value ds) 1)"
  have "parseNumber K (ds @ rest) = resolve K ds"
    using assms(1,2,6) by (intro parseNumber_token digits_number_bytes digits_follow_ok)
  moreover have "maxUint64 < decimal_value ds" using assms(4) by (simp add: maxUint64_def)
  ultimately have pn: "parseNumber K (ds @ rest) = (floatTag K OR FloatOverflowedInteger K, v)"
    and pf: "ParseFloat ds = (v, None)"
    using assms(5)
    by (simp_all add: v_def resolve_big_digits [OF assms(1-3)] ParseFloat_digits [OF assms(1,2)])
  have fin: "f64_finite v" using pf by (rule ParseFloat_finite)
  have "\<bar>f64_decode v - of_nat (decimal_value ds)\<bar> \<le> \<bar>f64_decode w - of_nat (decimal_value ds)\<bar>"
    for w
    using ParseFloat_nearest [OF readFloat_digits [OF assms(1,2)] pf, of w] by simp
  with pn pf fin show ?thesis unfolding v_def by blast
qed

text \<open>
  \<open>2 ^ 64\<close>, of 20 bytes, and \<open>10 ^ 23\<close>, of 24 bytes and before a comma: the doubles
  \<^verbatim>\<open>0x43F0000000000000\<close>, which is \<open>2 ^ 64\<close>, and \<^verbatim>\<open>0x44B52D02C7E14AF6\<close>, which is
  \<open>10 ^ 23 - 8388608\<close>.
\<close>

theorem integer_overflow_is_float_witness:
  "parseNumber simdjson_consts ''18446744073709551616'' =
     (floatTag simdjson_consts OR FloatOverflowedInteger simdjson_consts, 0x43F0000000000000) \<and>
   f64_decode 0x43F0000000000000 = 2 ^ 64 \<and>
   parseNumber simdjson_consts ''100000000000000000000000,'' =
     (floatTag simdjson_consts OR FloatOverflowedInteger simdjson_consts, 0x44B52D02C7E14AF6) \<and>
   f64_decode 0x44B52D02C7E14AF6 = 10 ^ 23 - 8388608"
proof -
  have v1: "decimal_value ''18446744073709551616'' = 2 ^ 64"
    and v2: "decimal_value ''100000000000000000000000'' = 10 ^ 23"
    by (simp_all add: decimal_value_def digit_val_def)
  have f1: "f64_round (2 ^ 64) (Suc 0) = 0x43F0000000000000"
    and f2: "f64_round (10 ^ 23) (Suc 0) = 0x44B52D02C7E14AF6"
    by (simp_all add: f64_round_def ilog2_ratio_def rne_def compute_floorlog)
  have d1: "list_all is_digit ''18446744073709551616''"
    and d2: "list_all is_digit ''100000000000000000000000''"
    by (simp_all add: is_digit_def)
  have r2: "'','' = [] \<or> isNumberRune (hd '','') = isEOVFlag" by (simp add: isNumberRune_def)
  have g1: "f64_decode 0x43F0000000000000 = 2 ^ 64"
    and g2: "f64_decode 0x44B52D02C7E14AF6 = 10 ^ 23 - 8388608"
    by (simp_all add: f64_decode_def f64_value_def power_int_def)
  from integer_overflow_is_float [OF d1, of "[]" simdjson_consts]
    integer_overflow_is_float [OF d2 _ _ _ _ r2, of simdjson_consts]
  show ?thesis using f1 f2 g1 g2 by (simp add: v1 v2)
qed

subsection \<open>C1: the sentinel and the JSON grammar\<close>




subsection \<open>C2: valid JSON numbers\<close>

text \<open>
  C2 as stated includes numbers beyond the range of a double and names \<^verbatim>\<open>"1e400"\<close>:
  it is a JSON number with the value \<open>10 ^ 400\<close>, \<^verbatim>\<open>ParseFloat\<close> returns an infinity with
  \<^verbatim>\<open>ErrRange\<close>, and \<open>parseNumber\<close> returns \<open>(0, 0)\<close> (lines 130 to 134).
\<close>

theorem double_range_counterexample:
  "json_number ''1e400'' \<and> json_value ''1e400'' = 10 ^ 400 \<and>
   ParseFloat ''1e400'' = (push_bit 52 2047, Some ErrRange) \<and>
   parseNumber simdjson_consts ''1e400'' = (0, 0)"
proof -
  have "json_value ''1e400'' = 10 ^ 400"
    by (simp add: json_value_def json_exponent_def decimal_value_def is_digit_def digit_val_def)
  then show ?thesis
    using exponent_400_json exponent_400_range_error exponent_400_sentinel by simp
qed

text \<open>
  C2, amended: for every JSON number on which \<^verbatim>\<open>ParseFloat\<close> reports no range error,
  followed by the end of the buffer or an EndOfValue byte, and with tag words that are
  not 0, \<open>parseNumber\<close> does not return \<open>(0, 0)\<close>. The result is the Integer tag with a
  word whose signed value is the number, or the Uint tag with a word whose unsigned
  value is the number, or the Float tag (with or without the OverflowedInteger flag)
  with the finite double that \<^verbatim>\<open>ParseFloat\<close> returns for the token. Where the exponent
  of the number is below 100000 in magnitude (\<^verbatim>\<open>readFloat\<close> accumulates no larger one),
  no finite double is nearer to the number than this double, which therefore is the
  number if the number is a finite double.
\<close>

theorem valid_number_resolves:
  assumes "json_number tok" and "rest = [] \<or> isNumberRune (hd rest) = isEOVFlag"
    and "snd (ParseFloat tok) \<noteq> Some ErrRange"
    and "integerTag K \<noteq> 0" and "floatTag K \<noteq> 0"
  shows "parseNumber K (tok @ rest) \<noteq> (0, 0) \<and>
    ((\<exists>v. parseNumber K (tok @ rest) = (integerTag K, v) \<and>
          of_int (sint v) = json_value tok) \<or>
     (\<exists>v. parseNumber K (tok @ rest) = (uintTag K, v) \<and>
          of_nat (unat v) = json_value tok) \<or>
     (\<exists>v. (parseNumber K (tok @ rest) = (floatTag K, v) \<or>
           parseNumber K (tok @ rest) = (floatTag K OR FloatOverflowedInteger K, v)) \<and>
          ParseFloat tok = (v, None) \<and> f64_finite v \<and>
          (\<bar>json_exponent tok\<bar> < 100000 \<longrightarrow>
            (\<forall>w. f64_finite w \<longrightarrow>
               \<bar>f64_decode v - json_value tok\<bar> \<le> \<bar>f64_decode w - json_value tok\<bar>) \<and>
            (\<forall>w. f64_finite w \<and> f64_decode w = json_value tok \<longrightarrow>
               f64_decode v = json_value tok))))"
proof -
  from json_number_decompose [OF assms(1)] obtain sg ip fp ep where
    tok: "tok = sg @ ip @ fp @ ep" and sg: "sg = [] \<or> sg = ''-''"
    and j: "json_int ip" "json_frac fp" "json_exp ep"
    by blast
  from j(1) have d: "list_all is_digit ip" and ne: "ip \<noteq> []" using json_int_digits by auto
  have "tok \<noteq> []" using ne tok by simp
  then have pn: "parseNumber K (tok @ rest) = resolve K tok"
    using json_token_number_bytes [OF sg j] json_token_follow_ok [OF sg j] assms(2)
    unfolding tok by (intro parseNumber_token)
  have nlz: "\<not> leading_zero tok"
    unfolding tok using sg j by (rule json_token_not_leading_zero)
  have pf: "snd (ParseFloat tok) = None"
    using json_token_ParseFloat [OF sg j] assms(3) unfolding tok by simp
  define v where "v = fst (ParseFloat tok)"
  have pfv: "ParseFloat tok = (v, None)" using pf by (simp add: v_def prod_eq_iff)
  have fs: "float_stage ParseFloat tok (length tok) tag = (tag, v)" for tag
    unfolding v_def using nlz pf by (rule float_stage_ok)
  have or_ne: "floatTag K OR FloatOverflowedInteger K \<noteq> 0"
    using assms(5) by (simp add: or_eq_0_iff)
  have fin: "f64_finite v" using pfv by (rule ParseFloat_finite)
  have near: "\<bar>json_exponent tok\<bar> < 100000 \<longrightarrow>
      (\<forall>w. f64_finite w \<longrightarrow>
         \<bar>f64_decode v - json_value tok\<bar> \<le> \<bar>f64_decode w - json_value tok\<bar>) \<and>
      (\<forall>w. f64_finite w \<and> f64_decode w = json_value tok \<longrightarrow>
         f64_decode v = json_value tok)"
  proof (intro impI conjI allI)
    assume c: "\<bar>json_exponent tok\<bar> < 100000"
    have n: "\<bar>f64_decode v - json_value tok\<bar> \<le> \<bar>f64_decode w - json_value tok\<bar>" for w
      using c pfv unfolding tok by (intro json_token_nearest sg j)
    show "\<bar>f64_decode v - json_value tok\<bar> \<le> \<bar>f64_decode w - json_value tok\<bar>" for w
      by (rule n)
    show "f64_decode v = json_value tok" if "f64_finite w \<and> f64_decode w = json_value tok" for w
      using n [of w] that by simp
  qed
  have float_case: ?thesis
    if "resolve K tok = float_stage ParseFloat tok (length tok) (floatTag K) \<or>
        resolve K tok = float_stage ParseFloat tok (length tok)
          (floatTag K OR FloatOverflowedInteger K)"
  proof -
    from that have r: "parseNumber K (tok @ rest) = (floatTag K, v) \<or>
        parseNumber K (tok @ rest) = (floatTag K OR FloatOverflowedInteger K, v)"
      by (simp add: pn fs)
    then have "parseNumber K (tok @ rest) \<noteq> (0, 0)" using assms(5) or_ne by auto
    with r pfv fin near show ?thesis by blast
  qed
  show ?thesis
  proof (cases "fp \<noteq> [] \<or> ep \<noteq> []")
    case True
    have "flags_from 0 tok AND isFloatOnlyFlag \<noteq> 0"
      unfolding tok using True j(2,3) by (rule json_token_float_flags)
    then show ?thesis by (intro float_case disjI1 resolve_float_shaped)
  next
    case False
    then have t: "tok = sg @ ip" by (simp add: tok)
    let ?n = "decimal_value ip"
    from sg show ?thesis
    proof
      assume "sg = []"
      then have ti: "tok = ip" by (simp add: t)
      show ?thesis
      proof (cases "length ip \<le> 20")
        case long: False
        then show ?thesis
          unfolding ti [symmetric] using d
          by (intro float_case disjI2) (simp add: ti resolve_long_digits)
      next
        case True
        note r = resolve_digits [OF j(1) True, of K]
        consider "?n < 2 ^ 63" | "\<not> ?n < 2 ^ 63" "?n \<le> maxUint64" | "\<not> ?n \<le> maxUint64"
          by (auto simp: maxUint64_def)
        then show ?thesis
        proof cases
          case 1
          then have "resolve K ip = (integerTag K, word_of_int (int ?n))"
            by (simp add: r)
          then have A: "parseNumber K (tok @ rest) = (integerTag K, word_of_int (int ?n))"
            by (subst pn) (simp only: ti)
          have "sint (word_of_int (int ?n) :: u64) = int ?n"
            by (rule sint_word_of_int_u64) (use 1 in simp_all)
          moreover have "json_value tok = of_nat ?n"
            unfolding ti using d ne by (rule json_value_digits)
          ultimately have B: "of_int (sint (word_of_int (int ?n) :: u64)) = json_value tok"
            by (simp only: of_int_of_nat_eq)
          have C: "parseNumber K (tok @ rest) \<noteq> (0, 0)" using A assms(4) by simp
          show ?thesis
            by (rule conjI [OF C], rule disjI1, rule exI [of _ "word_of_int (int ?n)"])
               (rule conjI [OF A B])
        next
          case 2
          then have "resolve K ip = (uintTag K, word_of_nat ?n)"
            by (simp add: r)
          then have pr: "parseNumber K (tok @ rest) = (uintTag K, word_of_nat ?n)"
            by (subst pn) (simp only: ti)
          have u: "unat (word_of_nat ?n :: u64) = ?n"
            using 2 by (simp add: unat_of_nat maxUint64_def)
          then have nz: "(word_of_nat ?n :: u64) \<noteq> 0" using 2 by auto
          have "json_value tok = of_nat ?n"
            unfolding ti using d ne by (rule json_value_digits)
          with u have B: "of_nat (unat (word_of_nat ?n :: u64)) = json_value tok"
            by (simp only:)
          have C: "parseNumber K (tok @ rest) \<noteq> (0, 0)" using pr nz by simp
          show ?thesis
            by (rule conjI [OF C], rule disjI2, rule disjI1, rule exI [of _ "word_of_nat ?n"])
               (rule conjI [OF pr B])
        next
          case 3
          then have "\<not> ?n < 2 ^ 63" by (simp add: maxUint64_def)
          with 3 show ?thesis
            by (intro float_case disjI2) (simp add: ti r)
        qed
      qed
    next
      assume "sg = ''-''"
      then have ti: "tok = CHR ''-'' # ip" by (simp add: t)
      show ?thesis
      proof (cases "length ip \<le> 19")
        case long: False
        then show ?thesis
          using d by (intro float_case disjI2) (simp add: ti resolve_long_minus_digits)
      next
        case True
        note r = resolve_minus_digits [OF j(1) True, of K]
        show ?thesis
        proof (cases "?n \<le> 2 ^ 63")
          case small: True
          then have "resolve K (CHR ''-'' # ip) = (integerTag K, word_of_int (- int ?n))"
            by (simp add: r)
          then have A: "parseNumber K (tok @ rest) = (integerTag K, word_of_int (- int ?n))"
            by (subst pn) (simp only: ti)
          have "sint (word_of_int (- int ?n) :: u64) = - int ?n"
            by (rule sint_word_of_int_u64) (use small in simp_all)
          moreover have "json_value tok = - of_nat ?n"
            unfolding ti using d ne by (rule json_value_digits)
          ultimately have B: "of_int (sint (word_of_int (- int ?n) :: u64)) = json_value tok"
            by (simp only: of_int_minus of_int_of_nat_eq)
          have C: "parseNumber K (tok @ rest) \<noteq> (0, 0)" using A assms(4) by simp
          show ?thesis
            by (rule conjI [OF C], rule disjI1, rule exI [of _ "word_of_int (- int ?n)"])
               (rule conjI [OF A B])
        next
          case False
          then show ?thesis
            by (intro float_case disjI2) (simp add: ti r)
        qed
      qed
    qed
  qed
qed

text \<open>
  The number \<^verbatim>\<open>-12.5e+3\<close> before a closing bracket: its value \<open>- 12500\<close> is a double,
  and the value word denotes it.
\<close>

theorem valid_number_resolves_witness:
  "\<exists>v. parseNumber simdjson_consts (''-12.5e+3'' @ '']'') = (floatTag simdjson_consts, v) \<and>
     ParseFloat ''-12.5e+3'' = (v, None) \<and> f64_finite v \<and>
     json_value ''-12.5e+3'' = - 12500 \<and> f64_decode v = json_value ''-12.5e+3''"
proof -
  let ?K = simdjson_consts
  let ?b = "0xC0C86A0000000000 :: u64"
  have h1: "json_number ''-12.5e+3''"
    by (simp add: json_number_def json_int_def json_frac_def json_exp_def is_digit_def)
  have h2: "'']'' = [] \<or> isNumberRune (hd '']'') = isEOVFlag" by (simp add: isNumberRune_def)
  have pf: "ParseFloat ''-12.5e+3'' = (?b, None)"
    by (simp add: ParseFloat_def readFloat_def read_exponent_def is_digit_def digit_val_def
        f64_round_def ilog2_ratio_def rne_def compute_floorlog)
  then have h3: "snd (ParseFloat ''-12.5e+3'') \<noteq> Some ErrRange" by simp
  have h4: "integerTag ?K \<noteq> 0" and h5: "floatTag ?K \<noteq> 0"
    by (simp_all add: integerTag_def floatTag_def simdjson_consts_def)
  have tags: "integerTag ?K \<noteq> floatTag ?K" "uintTag ?K \<noteq> floatTag ?K"
    by (simp_all add: integerTag_def uintTag_def floatTag_def simdjson_consts_def)
  have pn: "parseNumber ?K (''-12.5e+3'' @ '']'') = (floatTag ?K, ?b)"
    by (simp add: eval_defs f64_round_def ilog2_ratio_def rne_def compute_floorlog)
  have jv: "json_value ''-12.5e+3'' = - 12500"
    by (simp add: json_value_def json_exponent_def decimal_value_def is_digit_def digit_val_def)
  have je: "\<bar>json_exponent ''-12.5e+3''\<bar> < 100000"
    by (simp add: json_exponent_def decimal_value_def digit_val_def)
  have w: "f64_finite ?b \<and> f64_decode ?b = json_value ''-12.5e+3''"
    unfolding jv by (simp add: f64_finite_def f64_decode_def f64_value_def power_int_def power_one_over)
  from valid_number_resolves [OF h1 h2 h3 h4 h5] tags
  obtain v where v: "parseNumber ?K (''-12.5e+3'' @ '']'') = (floatTag ?K, v) \<or>
        parseNumber ?K (''-12.5e+3'' @ '']'') = (floatTag ?K OR FloatOverflowedInteger ?K, v)"
      "ParseFloat ''-12.5e+3'' = (v, None)" "f64_finite v"
    and ex: "\<bar>json_exponent ''-12.5e+3''\<bar> < 100000 \<longrightarrow>
        (\<forall>w. f64_finite w \<longrightarrow>
           \<bar>f64_decode v - json_value ''-12.5e+3''\<bar> \<le> \<bar>f64_decode w - json_value ''-12.5e+3''\<bar>) \<and>
        (\<forall>w. f64_finite w \<and> f64_decode w = json_value ''-12.5e+3'' \<longrightarrow>
           f64_decode v = json_value ''-12.5e+3'')"
    unfolding pn by auto
  from ex je w have "f64_decode v = json_value ''-12.5e+3''" by blast
  moreover have "parseNumber ?K (''-12.5e+3'' @ '']'') = (floatTag ?K, v)"
    using v(2) pf pn by simp
  ultimately show ?thesis using v(2,3) jv by blast
qed

end
